theory Spec2Isabelle
  imports Complex_Main "HOL-Library.Word" "HOL-Library.Char_ord" "HOL-Library.List_Lexorder"
    "HOL-Library.Sublist" "HOL-Library.Multiset"
begin

unbundle bit_operations_syntax

section \<open>Data model\<close>

text \<open>
  The model package of the synchronisation daemon (internal/model/model.go) rests on
  packages whose sources are not part of the verified file: protocol (FileInfo, flags,
  NodeID), files (the per-repository index set), lamport (the logical clock), ignore
  (patterns), events (the event log) and config. What model.go needs from them is
  written out below, each part marked as modelled from the specification.

  Conventions: uint64 and uint32 values are words (they wrap); int64 byte counts and
  offsets and Go ints are \<open>int\<close>, except in Completion, whose result is the value of
  two int64 sums: there the sizes and the sums are 64-bit words; a Go map is a partial
  function, and reading a missing key gives the zero value, which each function below
  writes out; time.Time is an \<open>int\<close> (nanoseconds).
\<close>

type_synonym NodeID = nat

text \<open>Modelled from the spec: protocol.LocalNodeID, the reserved identity of this node.\<close>

definition LocalNodeID :: NodeID where
  "LocalNodeID = 0"

record BlockInfo =
  Offset :: int
  Size :: "32 word"
  Hash :: "8 word list"

text \<open>
  Modelled from the spec: protocol.FileInfo, with the fields the spec lists. Flags is a
  bitset; the spec names the bits Deleted, Invalid and Directory, whose positions are
  those of the wire protocol (bits 12, 13, 14).
\<close>

record FileInfo =
  Name :: string
  Flags :: "32 word"
  Modified :: int
  Version :: "64 word"
  LocalVersion :: "64 word"
  Blocks :: "BlockInfo list"

definition FlagDeleted :: "32 word" where
  "FlagDeleted = 0x1000"

definition FlagInvalid :: "32 word" where
  "FlagInvalid = 0x2000"

definition FlagDirectory :: "32 word" where
  "FlagDirectory = 0x4000"

definition IsDeleted :: "32 word \<Rightarrow> bool" where
  "IsDeleted bits = (bits AND FlagDeleted \<noteq> 0)"

definition IsInvalid :: "32 word \<Rightarrow> bool" where
  "IsInvalid bits = (bits AND FlagInvalid \<noteq> 0)"

text \<open>The zero value of FileInfo, which Go returns for an absent entry.\<close>

definition zeroFileInfo :: FileInfo where
  "zeroFileInfo = \<lparr>Name = [], Flags = 0, Modified = 0, Version = 0, LocalVersion = 0, Blocks = []\<rparr>"

text \<open>
  FileIntf.Size() is not under src/: every function that calls it takes it as the
  parameter \<open>sz\<close>. The truncated traversals of the index set deliver entries without
  their block lists; their visitors in model.go read only Name, Flags, Modified, Version
  and Size(), so the model hands the visitor the entry and \<open>sz\<close> stands for the Size()
  of whichever form is traversed. \<open>blocksSize\<close> is one instance, used for concrete
  evaluation: the bytes the blocks cover.
\<close>

definition blocksSize :: "FileInfo \<Rightarrow> int" where
  "blocksSize f = sum_list (map (\<lambda>b. uint (Size b)) (Blocks f))"

subsection \<open>The logical clock\<close>

text \<open>
  Modelled from the spec: lamport.Default.Tick, \<open>tick(observed) = max(local, observed) + 1\<close>
  on a 64-bit counter. The clock is process-global state: Tick takes the clock value and
  returns the new one, which is also the value it hands back to the caller.
\<close>

definition Tick :: "64 word \<Rightarrow> 64 word \<Rightarrow> 64 word" where
  "Tick c v = max c v + 1"

subsection \<open>The index set\<close>

text \<open>
  Modelled from the spec: files.Set, one replica per node. A replica holds its entries
  (unique by name) and the highest local version it has assigned. Traversals run in
  lexicographic order of the name, over a snapshot.
\<close>

record Replica =
  entries :: "FileInfo list"
  watermark :: "64 word"

record IndexSet =
  setNodes :: "NodeID list"
  replicaOf :: "NodeID \<Rightarrow> Replica"

definition emptyReplica :: Replica where
  "emptyReplica = \<lparr>entries = [], watermark = 0\<rparr>"

text \<open>Modelled from the spec: files.NewSet, a set with no replica.\<close>

definition NewSet :: IndexSet where
  "NewSet = \<lparr>setNodes = [], replicaOf = (\<lambda>_. emptyReplica)\<rparr>"

text \<open>
  Modelled from the spec: one insertion of update and replace. The entry takes the place
  of the entry of the same name, if any, and receives the next local version.
\<close>

definition upsert :: "FileInfo \<Rightarrow> Replica \<Rightarrow> Replica" where
  "upsert f r =
     \<lparr>entries = filter (\<lambda>e. Name e \<noteq> Name f) (entries r) @ [f\<lparr>LocalVersion := watermark r + 1\<rparr>],
      watermark = watermark r + 1\<rparr>"

definition setReplica :: "IndexSet \<Rightarrow> NodeID \<Rightarrow> Replica \<Rightarrow> IndexSet" where
  "setReplica s n r =
     \<lparr>setNodes = (if n \<in> set (setNodes s) then setNodes s else setNodes s @ [n]),
      replicaOf = (replicaOf s)(n := r)\<rparr>"

text \<open>Modelled from the spec: files.Set.Update, an upsert of every entry of the batch.\<close>

definition Update :: "IndexSet \<Rightarrow> NodeID \<Rightarrow> FileInfo list \<Rightarrow> IndexSet" where
  "Update s n fs = setReplica s n (fold upsert fs (replicaOf s n))"

text \<open>
  Modelled from the spec: files.Set.Replace, which sets the replica to exactly the given
  entries; the local version keeps counting.
\<close>

definition Replace :: "IndexSet \<Rightarrow> NodeID \<Rightarrow> FileInfo list \<Rightarrow> IndexSet" where
  "Replace s n fs = setReplica s n (fold upsert fs ((replicaOf s n)\<lparr>entries := []\<rparr>))"

text \<open>Modelled from the spec: files.Set.Get, the entry or the zero value.\<close>

definition Get :: "IndexSet \<Rightarrow> NodeID \<Rightarrow> string \<Rightarrow> FileInfo" where
  "Get s n name =
     (case find (\<lambda>e. Name e = name) (entries (replicaOf s n)) of
        None \<Rightarrow> zeroFileInfo
      | Some e \<Rightarrow> e)"

text \<open>Modelled from the spec: files.Set.LocalVersion, the replica's high watermark.\<close>

definition Set_LocalVersion :: "IndexSet \<Rightarrow> NodeID \<Rightarrow> 64 word" where
  "Set_LocalVersion s n = watermark (replicaOf s n)"

text \<open>
  Modelled from the spec: the sequence a WithHave or WithHaveTruncated traversal
  delivers, the replica in lexicographic order of the names.
\<close>

definition haveList :: "IndexSet \<Rightarrow> NodeID \<Rightarrow> FileInfo list" where
  "haveList s n = sort_key Name (entries (replicaOf s n))"

text \<open>
  Modelled from the spec: the global view. For a name, the entry of greatest version
  among the replicas that hold it, the greater NodeID winning a tie.
\<close>

definition candidates :: "IndexSet \<Rightarrow> string \<Rightarrow> (NodeID \<times> FileInfo) list" where
  "candidates s name =
     concat (map (\<lambda>n. map (\<lambda>e. (n, e)) (filter (\<lambda>e. Name e = name) (entries (replicaOf s n))))
       (setNodes s))"

definition better :: "NodeID \<times> FileInfo \<Rightarrow> NodeID \<times> FileInfo \<Rightarrow> NodeID \<times> FileInfo" where
  "better a b =
     (if Version (snd a) < Version (snd b) \<or> (Version (snd a) = Version (snd b) \<and> fst a < fst b)
      then b else a)"

definition allNames :: "IndexSet \<Rightarrow> string list" where
  "allNames s =
     sort (remdups (concat (map (\<lambda>n. map Name (entries (replicaOf s n))) (setNodes s))))"

definition globalList :: "IndexSet \<Rightarrow> FileInfo list" where
  "globalList s =
     concat (map (\<lambda>name. case candidates s name of
                            [] \<Rightarrow> []
                          | c # cs \<Rightarrow> [snd (fold better cs c)])
               (allNames s))"

text \<open>
  Modelled from the spec: the need view of a node, the global entries that are not
  Invalid and whose version is greater than the version the node's replica holds for the
  name.
\<close>

definition needList :: "IndexSet \<Rightarrow> NodeID \<Rightarrow> FileInfo list" where
  "needList s n =
     filter (\<lambda>g. Version (Get s n (Name g)) < Version g \<and> \<not> IsInvalid (Flags g)) (globalList s)"

text \<open>
  A traversal calls its visitor on each entry in turn and stops when the visitor returns
  false. The visitor is a function of the state its closure captures.
\<close>

fun iterate :: "('s \<Rightarrow> 'a \<Rightarrow> bool \<times> 's) \<Rightarrow> 'a list \<Rightarrow> 's \<Rightarrow> 's" where
  "iterate v [] s = s"
| "iterate v (x # xs) s = (case v s x of (True, s') \<Rightarrow> iterate v xs s' | (False, s') \<Rightarrow> s')"

subsection \<open>Configuration, events and the model\<close>

text \<open>
  Modelled from the spec: ignore.Patterns, read through Match only; the nil value (no
  patterns loaded) matches nothing.
\<close>

type_synonym Patterns = "string \<Rightarrow> bool"

definition noPatterns :: Patterns where
  "noPatterns = (\<lambda>_. False)"

record NodeConfiguration =
  ncNodeID :: NodeID
  ncName :: string
  ncIntroducer :: bool

record RepositoryConfiguration =
  ID :: string
  Directory :: string
  Nodes :: "NodeID list"
  IgnorePerms :: bool

record Configuration =
  cfgNodes :: "NodeConfiguration list"
  cfgRepositories :: "RepositoryConfiguration list"
  cfgSaved :: nat

datatype repoState = RepoIdle | RepoScanning | RepoSyncing | RepoCleaning

fun repoState_String :: "repoState \<Rightarrow> string" where
  "repoState_String RepoIdle = ''idle''"
| "repoState_String RepoScanning = ''scanning''"
| "repoState_String RepoCleaning = ''cleaning''"
| "repoState_String RepoSyncing = ''syncing''"

text \<open>
  The events of events.Default.Log, with the payload each call site builds. StateChanged
  carries its duration (kept as the Duration, before the conversion to seconds) and its
  from field only when the call site adds them.
\<close>

datatype event =
    RepoRejected string NodeID
  | RemoteIndexUpdated NodeID string nat "64 word"
  | LocalIndexUpdated string string int "32 word" int
  | NodeDisconnected NodeID string
  | StateChanged string string "int option" "string option"

text \<open>
  The Model struct. The field repoState of the source is \<open>repoStates\<close> here (the type
  has the name); protoConn and rawConn keep the nodes that have a connection; the locks
  and the database handle have no counterpart.
\<close>

record Model =
  cfg :: Configuration
  repoCfgs :: "string \<rightharpoonup> RepositoryConfiguration"
  repoFiles :: "string \<rightharpoonup> IndexSet"
  repoNodes :: "string \<rightharpoonup> NodeID list"
  nodeRepos :: "NodeID \<rightharpoonup> string list"
  repoIgnores :: "string \<rightharpoonup> Patterns"
  repoStates :: "string \<rightharpoonup> repoState"
  repoStateChanged :: "string \<rightharpoonup> int"
  protoConn :: "NodeID set"
  rawConn :: "NodeID set"
  nodeVer :: "NodeID \<rightharpoonup> string"
  addedRepo :: bool
  started :: bool

text \<open>
  The process state the model's methods act on: the model, the global lamport clock and
  the global event log.
\<close>

record World =
  model :: Model
  lamport :: "64 word"
  events :: "event list"

definition logEvent :: "event \<Rightarrow> World \<Rightarrow> World" where
  "logEvent e w = w\<lparr>events := events w @ [e]\<rparr>"

section \<open>The repository state machine\<close>

text \<open>
  setState reads the clock twice: time.Now() for the stamp (\<open>now\<close>) and, inside
  time.Since, once more for the duration (\<open>since\<close>).
\<close>

definition currentState :: "Model \<Rightarrow> string \<Rightarrow> repoState" where
  "currentState m repo = (case repoStates m repo of None \<Rightarrow> RepoIdle | Some s \<Rightarrow> s)"

definition setState :: "int \<Rightarrow> int \<Rightarrow> string \<Rightarrow> repoState \<Rightarrow> World \<Rightarrow> World" where
  "setState now since repo state w =
     (let m = model w;
          oldState = currentState m repo;
          changed = repoStateChanged m repo
      in if state \<noteq> oldState then
           logEvent
             (StateChanged repo (repoState_String state)
                (case changed of None \<Rightarrow> None | Some c \<Rightarrow> Some (since - c))
                (case changed of None \<Rightarrow> None | Some c \<Rightarrow> Some (repoState_String oldState)))
             (w\<lparr>model := m\<lparr>repoStates := (repoStates m)(repo \<mapsto> state),
                             repoStateChanged := (repoStateChanged m)(repo \<mapsto> now)\<rparr>\<rparr>)
         else w)"

text \<open>NewModel: every map empty. The configuration is the caller's.\<close>

definition NewModel :: "Configuration \<Rightarrow> Model" where
  "NewModel c =
     \<lparr>cfg = c, repoCfgs = Map.empty, repoFiles = Map.empty, repoNodes = Map.empty,
      nodeRepos = Map.empty, repoIgnores = Map.empty, repoStates = Map.empty,
      repoStateChanged = Map.empty, protoConn = {}, rawConn = {}, nodeVer = Map.empty,
      addedRepo = False, started = False\<rparr>"

definition newWorld :: "Configuration \<Rightarrow> World" where
  "newWorld c = \<lparr>model = NewModel c, lamport = 0, events = []\<rparr>"

definition emptyConfiguration :: Configuration where
  "emptyConfiguration = \<lparr>cfgNodes = [], cfgRepositories = [], cfgSaved = 0\<rparr>"

section \<open>Sizes\<close>

definition sizeOfFile :: "(FileInfo \<Rightarrow> int) \<Rightarrow> FileInfo \<Rightarrow> int \<times> int \<times> int" where
  "sizeOfFile sz f = (if \<not> IsDeleted (Flags f) then (1, 0, sz f) else (0, 1, sz f))"

text \<open>The visitor of LocalSize; its state is the three named results.\<close>

definition LocalSize_visit ::
  "(FileInfo \<Rightarrow> int) \<Rightarrow> int \<times> int \<times> int \<Rightarrow> FileInfo \<Rightarrow> bool \<times> int \<times> int \<times> int" where
  "LocalSize_visit sz acc f =
     (case acc of (files, deleted, bytes) \<Rightarrow>
        if IsInvalid (Flags f) then (True, (files, deleted, bytes))
        else (case sizeOfFile sz f of
                (fs, de, by) \<Rightarrow> (True, (files + fs, deleted + de, bytes + by))))"

definition LocalSize :: "(FileInfo \<Rightarrow> int) \<Rightarrow> Model \<Rightarrow> string \<Rightarrow> int \<times> int \<times> int" where
  "LocalSize sz m repo =
     (case repoFiles m repo of
        Some rf \<Rightarrow> iterate (LocalSize_visit sz) (haveList rf LocalNodeID) (0, 0, 0)
      | None \<Rightarrow> (0, 0, 0))"

text \<open>Concrete entries and a model holding one repository, for evaluation.\<close>

definition mkFile :: "string \<Rightarrow> 32 word \<Rightarrow> 64 word \<Rightarrow> 32 word list \<Rightarrow> FileInfo" where
  "mkFile name bits ver sizes =
     \<lparr>Name = name, Flags = bits, Modified = 0, Version = ver, LocalVersion = 0,
      Blocks = map (\<lambda>s. \<lparr>Offset = 0, Size = s, Hash = []\<rparr>) sizes\<rparr>"

definition localOnly :: "FileInfo list \<Rightarrow> IndexSet" where
  "localOnly fs =
     \<lparr>setNodes = [LocalNodeID],
      replicaOf = (\<lambda>_. emptyReplica)(LocalNodeID := \<lparr>entries = fs, watermark = 0\<rparr>)\<rparr>"

definition photosModel :: "IndexSet \<Rightarrow> Model" where
  "photosModel s = (NewModel emptyConfiguration)\<lparr>repoFiles := [''photos'' \<mapsto> s]\<rparr>"

section \<open>Inbound protocol requests\<close>

text \<open>
  The errors Request can return: the two error values of the package, an error of the
  operating system (from os.Open or ReadAt, never equal to the package's values), and the
  run-time panic of make with a negative length.
\<close>

datatype error = ErrNoSuchFile | ErrInvalid | OsError | Panic

text \<open>
  The disk is a map from paths to file contents. filepath.Join is modelled as joining
  with a separator; os.Open fails on a path the disk does not hold; ReadAt fails on a
  negative offset and when fewer than len(buf) bytes are available at the offset.
\<close>

definition pathJoin :: "string \<Rightarrow> string \<Rightarrow> string" where
  "pathJoin dir name = dir @ ''/'' @ name"

definition ReadAt :: "8 word list \<Rightarrow> int \<Rightarrow> int \<Rightarrow> error + 8 word list" where
  "ReadAt content nbytes offset =
     (if offset < 0 then Inl OsError
      else if nbytes = 0 then Inr []
      else if offset + nbytes \<le> int (length content)
        then Inr (take (nat nbytes) (drop (nat offset) content))
      else Inl OsError)"

definition repoDirectory :: "Model \<Rightarrow> string \<Rightarrow> string" where
  "repoDirectory m repo = (case repoCfgs m repo of None \<Rightarrow> [] | Some c \<Rightarrow> Directory c)"

text \<open>
  Request returns the model with its result: the method only reads the model, and the
  returned model is the one it was given.
\<close>

definition Request ::
  "(FileInfo \<Rightarrow> int) \<Rightarrow> (string \<rightharpoonup> 8 word list) \<Rightarrow> Model \<Rightarrow> NodeID \<Rightarrow> string \<Rightarrow> string \<Rightarrow> int \<Rightarrow> int
     \<Rightarrow> Model \<times> (error + 8 word list)" where
  "Request sz disk m nodeID repo name offset nbytes =
     (case repoFiles m repo of
        None \<Rightarrow> (m, Inl ErrNoSuchFile)
      | Some r \<Rightarrow>
          (let lf = Get r LocalNodeID name in
           if IsInvalid (Flags lf) \<or> IsDeleted (Flags lf) then (m, Inl ErrInvalid)
           else if offset > sz lf then (m, Inl ErrNoSuchFile)
           else (case disk (pathJoin (repoDirectory m repo) name) of
                   None \<Rightarrow> (m, Inl OsError)
                 | Some content \<Rightarrow>
                     if nbytes < 0 then (m, Inl Panic) else (m, ReadAt content nbytes offset))))"

definition repoSharedWith :: "Model \<Rightarrow> string \<Rightarrow> NodeID \<Rightarrow> bool" where
  "repoSharedWith m repo nodeID =
     list_ex (\<lambda>nrepo. nrepo = repo) (case nodeRepos m nodeID of None \<Rightarrow> [] | Some rs \<Rightarrow> rs)"

text \<open>
  The loop of Index and IndexUpdate over the received entries: tick the clock with the
  entry's version; an ignored entry is overwritten with the last entry and the slice is
  shortened by one, without advancing. It returns the remaining slice and the clock.
\<close>

function dropIgnored :: "Patterns \<Rightarrow> nat \<Rightarrow> FileInfo list \<Rightarrow> 64 word \<Rightarrow> FileInfo list \<times> 64 word" where
  "dropIgnored ignores i fs c =
     (if i < length fs then
        (if ignores (Name (fs ! i))
         then dropIgnored ignores i (butlast (fs[i := last fs])) (Tick c (Version (fs ! i)))
         else dropIgnored ignores (i + 1) fs (Tick c (Version (fs ! i))))
      else (fs, c))"
  by pat_completeness auto
termination
  by (relation "measure (\<lambda>(ignores, i, fs, c). length fs - i)") auto

declare dropIgnored.simps [simp del]

definition ignoresOf :: "Model \<Rightarrow> string \<Rightarrow> Patterns" where
  "ignoresOf m repo = (case repoIgnores m repo of None \<Rightarrow> noPatterns | Some p \<Rightarrow> p)"

text \<open>
  Index and IndexUpdate return None where l.Fatalf ends the process (the repository is
  shared with the node but has no index set), and the next state otherwise.
\<close>

definition Index :: "NodeID \<Rightarrow> string \<Rightarrow> FileInfo list \<Rightarrow> World \<Rightarrow> World option" where
  "Index nodeID repo fs w =
     (let m = model w in
      if \<not> repoSharedWith m repo nodeID then Some (logEvent (RepoRejected repo nodeID) w)
      else (case repoFiles m repo of
              None \<Rightarrow> None
            | Some files \<Rightarrow>
                (case dropIgnored (ignoresOf m repo) 0 fs (lamport w) of
                   (fs', c') \<Rightarrow>
                     (let files' = Replace files nodeID fs' in
                      Some (logEvent
                              (RemoteIndexUpdated nodeID repo (length fs')
                                 (Set_LocalVersion files' nodeID))
                              (w\<lparr>model := m\<lparr>repoFiles := (repoFiles m)(repo \<mapsto> files')\<rparr>,
                                 lamport := c'\<rparr>))))))"

definition IndexUpdate :: "NodeID \<Rightarrow> string \<Rightarrow> FileInfo list \<Rightarrow> World \<Rightarrow> World option" where
  "IndexUpdate nodeID repo fs w =
     (let m = model w in
      if \<not> repoSharedWith m repo nodeID then Some w
      else (case repoFiles m repo of
              None \<Rightarrow> None
            | Some files \<Rightarrow>
                (case dropIgnored (ignoresOf m repo) 0 fs (lamport w) of
                   (fs', c') \<Rightarrow>
                     (let files' = Update files nodeID fs' in
                      Some (logEvent
                              (RemoteIndexUpdated nodeID repo (length fs')
                                 (Set_LocalVersion files' nodeID))
                              (w\<lparr>model := m\<lparr>repoFiles := (repoFiles m)(repo \<mapsto> files')\<rparr>,
                                 lamport := c'\<rparr>))))))"

text \<open>A world in which node 7 shares the repository photos, for evaluation.\<close>

definition sharedWorld :: "Patterns \<Rightarrow> World" where
  "sharedWorld ig =
     \<lparr>model = (photosModel NewSet)\<lparr>nodeRepos := [7 \<mapsto> [''photos'']],
                                     repoNodes := [''photos'' \<mapsto> [7]],
                                     repoIgnores := [''photos'' \<mapsto> ig]\<rparr>,
      lamport = 0, events = []\<rparr>"

section \<open>Completion and the need list\<close>




text \<open>
  The visitor of NeedFilesRepoLimited: append, count the blocks, and go on while both
  limits allow it. The slice is made with capacity maxFiles inside the branch of a known
  repository; make panics at run time on a negative capacity.
\<close>

definition NeedFiles_visit ::
  "int \<Rightarrow> int \<Rightarrow> FileInfo list \<times> int \<Rightarrow> FileInfo \<Rightarrow> bool \<times> FileInfo list \<times> int" where
  "NeedFiles_visit maxFiles maxBlocks st fi =
     (case st of (fs, nblocks) \<Rightarrow>
        ((maxFiles \<le> 0 \<or> int (length (fs @ [fi])) < maxFiles) \<and>
         (maxBlocks \<le> 0 \<or> nblocks + int (length (Blocks fi)) < maxBlocks),
         (fs @ [fi], nblocks + int (length (Blocks fi)))))"

definition NeedFilesRepoLimited :: "Model \<Rightarrow> string \<Rightarrow> int \<Rightarrow> int \<Rightarrow> error + FileInfo list option" where
  "NeedFilesRepoLimited m repo maxFiles maxBlocks =
     (case repoFiles m repo of
        Some rf \<Rightarrow>
          if maxFiles < 0 then Inl Panic
          else Inr (Some (fst (iterate (NeedFiles_visit maxFiles maxBlocks)
                                 (needList rf LocalNodeID) ([], 0))))
      | None \<Rightarrow> Inr None)"

definition totalBlocks :: "FileInfo list \<Rightarrow> int" where
  "totalBlocks fs = sum_list (map (\<lambda>f. int (length (Blocks f))) fs)"







definition withinLimits :: "int \<Rightarrow> int \<Rightarrow> FileInfo list \<Rightarrow> bool" where
  "withinLimits maxFiles maxBlocks fs =
     ((maxFiles \<le> 0 \<or> int (length fs) < maxFiles) \<and> (maxBlocks \<le> 0 \<or> totalBlocks fs < maxBlocks))"

section \<open>The index sender\<close>

definition indexTargetSize :: int where
  "indexTargetSize = 250 * 1024"

definition indexPerFileSize :: int where
  "indexPerFileSize = 250"

definition IndexPerBlockSize :: int where
  "IndexPerBlockSize = 40"

definition indexBatchSize :: nat where
  "indexBatchSize = 1000"

text \<open>
  The calls sendIndexTo makes on the connection, in order. Whether a call fails is the
  connection's: \<open>fails k\<close> says that the call number k of this run (from 0) returns an
  error. A failed call is a call all the same, and stays in the list.
\<close>

datatype message = MsgIndex string "FileInfo list" | MsgIndexUpdate string "FileInfo list"

text \<open>The variables the visitor of sendIndexTo captures, and the calls made so far.\<close>

record sendState =
  batch :: "FileInfo list"
  currentBatchSize :: int
  maxLocalVer :: "64 word"
  initial :: bool
  sendErr :: bool
  sent :: "message list"

definition connCall :: "(nat \<Rightarrow> bool) \<Rightarrow> message \<Rightarrow> sendState \<Rightarrow> sendState" where
  "connCall fails msg st = st\<lparr>sendErr := fails (length (sent st)), sent := sent st @ [msg]\<rparr>"

definition addToBatch :: "FileInfo \<Rightarrow> sendState \<Rightarrow> sendState" where
  "addToBatch f st =
     st\<lparr>batch := batch st @ [f],
        currentBatchSize :=
          currentBatchSize st + (indexPerFileSize + int (length (Blocks f)) * IndexPerBlockSize)\<rparr>"

definition sendIndex_visit ::
  "(nat \<Rightarrow> bool) \<Rightarrow> 64 word \<Rightarrow> string \<Rightarrow> Patterns \<Rightarrow> sendState \<Rightarrow> FileInfo \<Rightarrow> bool \<times> sendState" where
  "sendIndex_visit fails minLocalVer repo ignores st f =
     (if LocalVersion f \<le> minLocalVer then (True, st)
      else
        (let st1 = (if LocalVersion f > maxLocalVer st then st\<lparr>maxLocalVer := LocalVersion f\<rparr> else st) in
         if ignores (Name f) then (True, st1)
         else if length (batch st1) = indexBatchSize \<or> currentBatchSize st1 > indexTargetSize then
           (if initial st1 then
              (let st2 = connCall fails (MsgIndex repo (batch st1)) st1 in
               if sendErr st2 then (False, st2)
               else (True, addToBatch f (st2\<lparr>batch := [], currentBatchSize := 0, initial := False\<rparr>)))
            else
              (let st2 = connCall fails (MsgIndexUpdate repo (batch st1)) st1 in
               if sendErr st2 then (False, st2)
               else (True, addToBatch f (st2\<lparr>batch := [], currentBatchSize := 0\<rparr>))))
         else (True, addToBatch f st1)))"

definition sendStart :: "bool \<Rightarrow> sendState" where
  "sendStart ini =
     \<lparr>batch = [], currentBatchSize = 0, maxLocalVer = 0, initial = ini, sendErr = False, sent = []\<rparr>"

definition sendFinish :: "(nat \<Rightarrow> bool) \<Rightarrow> string \<Rightarrow> sendState \<Rightarrow> sendState" where
  "sendFinish fails repo st =
     (if initial st \<and> \<not> sendErr st then connCall fails (MsgIndex repo (batch st)) st
      else if length (batch st) > 0 \<and> \<not> sendErr st then connCall fails (MsgIndexUpdate repo (batch st)) st
      else st)"

text \<open>
  sendIndexTo returns the new watermark and whether it ends with an error; the model
  adds the calls it made on the connection.
\<close>

definition sendIndexTo ::
  "(nat \<Rightarrow> bool) \<Rightarrow> bool \<Rightarrow> 64 word \<Rightarrow> string \<Rightarrow> IndexSet \<Rightarrow> Patterns \<Rightarrow> (64 word \<times> bool) \<times> message list" where
  "sendIndexTo fails ini minLocalVer repo fs ignores =
     (let st = sendFinish fails repo
                 (iterate (sendIndex_visit fails minLocalVer repo ignores)
                    (haveList fs LocalNodeID) (sendStart ini))
      in ((maxLocalVer st, sendErr st), sent st))"

fun isIndexUpdate :: "string \<Rightarrow> message \<Rightarrow> bool" where
  "isIndexUpdate repo (MsgIndexUpdate r b) = (r = repo)"
| "isIndexUpdate repo (MsgIndex r b) = False"

text \<open>
  What holds of the calls made so far, at every point of a run that starts with
  initial set: either nothing was sent yet, or the first call was the Index and all later
  ones were IndexUpdates (and initial is still set only if that Index failed).
\<close>

definition sendInv :: "string \<Rightarrow> sendState \<Rightarrow> bool" where
  "sendInv repo st =
     (if sent st = [] then initial st \<and> \<not> sendErr st
      else (case sent st of
              [] \<Rightarrow> False
            | m # rest \<Rightarrow> (\<exists>b. m = MsgIndex repo b) \<and> list_all (isIndexUpdate repo) rest)
           \<and> (initial st \<longrightarrow> sendErr st))"

text \<open>An entry of 6400 blocks, which alone exceeds the target size of a batch.\<close>

definition bigFile :: "string \<Rightarrow> 64 word \<Rightarrow> FileInfo" where
  "bigFile name lv =
     \<lparr>Name = name, Flags = 0, Modified = 0, Version = 1, LocalVersion = lv,
      Blocks = replicate 6400 \<lparr>Offset = 0, Size = 1, Hash = []\<rparr>\<rparr>"

section \<open>The sharing graph: AddRepo, ClusterConfig, Close\<close>

text \<open>Reading the two sharing maps: a missing key reads as the nil slice.\<close>

definition nodesOf :: "Model \<Rightarrow> string \<Rightarrow> NodeID list" where
  "nodesOf m r = (case repoNodes m r of None \<Rightarrow> [] | Some ns \<Rightarrow> ns)"

definition reposOf :: "Model \<Rightarrow> NodeID \<Rightarrow> string list" where
  "reposOf m n = (case nodeRepos m n of None \<Rightarrow> [] | Some rs \<Rightarrow> rs)"

text \<open>
  AddRepo returns None where it panics (a started model, an empty id). The loop over
  cfg.Nodes appends the id to nodeRepos of each node; repoNodes of the id is overwritten
  with the nodes of the configuration.
\<close>

definition AddRepo :: "RepositoryConfiguration \<Rightarrow> Model \<Rightarrow> Model option" where
  "AddRepo rc m =
     (if started m then None
      else if length (ID rc) = 0 then None
      else Some (m\<lparr>repoCfgs := (repoCfgs m)(ID rc \<mapsto> rc),
                   repoFiles := (repoFiles m)(ID rc \<mapsto> NewSet),
                   repoNodes := (repoNodes m)(ID rc \<mapsto> Nodes rc),
                   nodeRepos :=
                     fold (\<lambda>node nr. nr(node \<mapsto> (case nr node of None \<Rightarrow> [] | Some rs \<Rightarrow> rs) @ [ID rc]))
                       (Nodes rc) (nodeRepos m),
                   addedRepo := True\<rparr>))"

text \<open>
  Modelled from the spec: the cluster configuration message, and the lookups of the
  config package. A node of the message carries its identity (the source copies its 32
  bytes into a NodeID) and its flags; the Introducer flag is bit 2 of the wire protocol.
\<close>

record ProtocolNode =
  pnID :: NodeID
  pnFlags :: "32 word"

record ProtocolRepository =
  prID :: string
  prNodes :: "ProtocolNode list"

record ClusterConfigMessage =
  ClientName :: string
  ClientVersion :: string
  Options :: "(string \<times> string) list"
  Repositories :: "ProtocolRepository list"

definition FlagIntroducer :: "32 word" where
  "FlagIntroducer = 4"

definition GetOption :: "ClusterConfigMessage \<Rightarrow> string \<Rightarrow> string" where
  "GetOption cm key = (case map_of (Options cm) key of None \<Rightarrow> [] | Some v \<Rightarrow> v)"

definition GetNodeConfiguration :: "Configuration \<Rightarrow> NodeID \<Rightarrow> NodeConfiguration option" where
  "GetNodeConfiguration c n = find (\<lambda>nc. ncNodeID nc = n) (cfgNodes c)"

definition GetRepoConfiguration :: "Configuration \<Rightarrow> string \<Rightarrow> RepositoryConfiguration option" where
  "GetRepoConfiguration c r = find (\<lambda>rc. ID rc = r) (cfgRepositories c)"

definition Save :: "Configuration \<Rightarrow> Configuration" where
  "Save c = c\<lparr>cfgSaved := cfgSaved c + 1\<rparr>"

text \<open>Writes through the pointers the two lookups return: the first match is updated.\<close>

fun setNodeName :: "NodeID \<Rightarrow> string \<Rightarrow> NodeConfiguration list \<Rightarrow> NodeConfiguration list" where
  "setNodeName n name [] = []"
| "setNodeName n name (nc # ncs) =
     (if ncNodeID nc = n then nc\<lparr>ncName := name\<rparr> # ncs else nc # setNodeName n name ncs)"

fun addRepoNode :: "string \<Rightarrow> NodeID \<Rightarrow> RepositoryConfiguration list \<Rightarrow> RepositoryConfiguration list" where
  "addRepoNode r n [] = []"
| "addRepoNode r n (rc # rcs) =
     (if ID rc = r then rc\<lparr>Nodes := Nodes rc @ [n]\<rparr> # rcs else rc # addRepoNode r n rcs)"

text \<open>
  The body of the loop over the nodes an introducer announces for a repository, on the
  model and the flag \<open>changed\<close>. None is the nil dereference of a repository that the
  configuration does not hold.
\<close>

definition introduceNode :: "string \<Rightarrow> ProtocolNode \<Rightarrow> Model \<times> bool \<Rightarrow> (Model \<times> bool) option" where
  "introduceNode rid node st =
     (case st of (m, changed) \<Rightarrow>
        (let st1 =
               (if GetNodeConfiguration (cfg m) (pnID node) = None
                then (m\<lparr>cfg := (cfg m)\<lparr>cfgNodes := cfgNodes (cfg m) @
                          [\<lparr>ncNodeID = pnID node, ncName = [],
                            ncIntroducer = (pnFlags node AND FlagIntroducer \<noteq> 0)\<rparr>]\<rparr>\<rparr>, True)
                else (m, changed));
             m1 = fst st1
         in if list_ex (\<lambda>er. er = rid) (reposOf m1 (pnID node)) then Some st1
            else (let m2 = m1\<lparr>nodeRepos := (nodeRepos m1)(pnID node \<mapsto> reposOf m1 (pnID node) @ [rid]),
                               repoNodes := (repoNodes m1)(rid \<mapsto> nodesOf m1 rid @ [pnID node])\<rparr>
                  in (case GetRepoConfiguration (cfg m2) rid of
                        None \<Rightarrow> None
                      | Some rc \<Rightarrow>
                          Some (m2\<lparr>cfg := (cfg m2)\<lparr>cfgRepositories :=
                                   addRepoNode rid (pnID node) (cfgRepositories (cfg m2))\<rparr>\<rparr>, True)))))"

fun introduceNodes :: "string \<Rightarrow> ProtocolNode list \<Rightarrow> Model \<times> bool \<Rightarrow> (Model \<times> bool) option" where
  "introduceNodes rid [] st = Some st"
| "introduceNodes rid (node # nodes) st =
     (case introduceNode rid node st of None \<Rightarrow> None | Some st' \<Rightarrow> introduceNodes rid nodes st')"

fun introduceRepos :: "ProtocolRepository list \<Rightarrow> Model \<times> bool \<Rightarrow> (Model \<times> bool) option" where
  "introduceRepos [] st = Some st"
| "introduceRepos (repo # repos) st =
     (if repoNodes (fst st) (prID repo) = None then introduceRepos repos st
      else (case introduceNodes (prID repo) (prNodes repo) st of
              None \<Rightarrow> None
            | Some st' \<Rightarrow> introduceRepos repos st'))"

text \<open>
  ClusterConfig returns None where it dereferences nil: the sending node is not in the
  configuration, or an announced repository that the model shares is not.
\<close>

definition ClusterConfig :: "NodeID \<Rightarrow> ClusterConfigMessage \<Rightarrow> Model \<Rightarrow> Model option" where
  "ClusterConfig nodeID cm m =
     (let m1 = m\<lparr>nodeVer := (nodeVer m)(nodeID \<mapsto>
                  (if ClientName cm = ''syncthing'' then ClientVersion cm
                   else ClientName cm @ '' '' @ ClientVersion cm))\<rparr>;
          name = GetOption cm ''name'';
          m2 = (if name \<noteq> [] then
                  (case GetNodeConfiguration (cfg m1) nodeID of
                     Some node \<Rightarrow>
                       if ncName node = []
                       then m1\<lparr>cfg := Save ((cfg m1)\<lparr>cfgNodes := setNodeName nodeID name (cfgNodes (cfg m1))\<rparr>)\<rparr>
                       else m1
                   | None \<Rightarrow> m1)
                else m1)
      in (case GetNodeConfiguration (cfg m2) nodeID of
            None \<Rightarrow> None
          | Some nc \<Rightarrow>
              if ncIntroducer nc then
                (case introduceRepos (Repositories cm) (m2, False) of
                   None \<Rightarrow> None
                 | Some (m3, changed) \<Rightarrow> Some (if changed then m3\<lparr>cfg := Save (cfg m3)\<rparr> else m3))
              else Some m2))"

text \<open>
  Close: the event, then the replica of the node is replaced by the empty list in every
  repository the node shares (None: a shared repository without index set is a nil
  dereference), then the node leaves the connection tables.
\<close>

fun closeReplace :: "NodeID \<Rightarrow> string list \<Rightarrow> (string \<rightharpoonup> IndexSet) \<Rightarrow> (string \<rightharpoonup> IndexSet) option" where
  "closeReplace node [] rf = Some rf"
| "closeReplace node (repo # repos) rf =
     (case rf repo of
        None \<Rightarrow> None
      | Some s \<Rightarrow> closeReplace node repos (rf(repo \<mapsto> Replace s node [])))"

definition Close :: "NodeID \<Rightarrow> string \<Rightarrow> World \<Rightarrow> World option" where
  "Close node err w =
     (let w1 = logEvent (NodeDisconnected node err) w; m = model w1 in
      case closeReplace node (reposOf m node) (repoFiles m) of
        None \<Rightarrow> None
      | Some rf \<Rightarrow>
          Some (w1\<lparr>model := m\<lparr>repoFiles := rf, protoConn := protoConn m - {node},
                               rawConn := rawConn m - {node}, nodeVer := (nodeVer m)(node := None)\<rparr>\<rparr>))"

text \<open>The sharing graph is symmetric.\<close>

definition sharingSymmetric :: "Model \<Rightarrow> bool" where
  "sharingSymmetric m = (\<forall>r n. (n \<in> set (nodesOf m r)) = (r \<in> set (reposOf m n)))"

definition photosCfg :: "NodeID list \<Rightarrow> RepositoryConfiguration" where
  "photosCfg ns = \<lparr>ID = ''photos'', Directory = ''/data/photos'', Nodes = ns, IgnorePerms = False\<rparr>"

text \<open>Concrete models, configurations and a cluster configuration message, for evaluation.\<close>

definition addedOnce :: Model where
  "addedOnce = (NewModel emptyConfiguration)
     \<lparr>repoCfgs := [''photos'' \<mapsto> photosCfg [7]], repoFiles := [''photos'' \<mapsto> NewSet],
      repoNodes := [''photos'' \<mapsto> [7]], nodeRepos := [7 \<mapsto> [''photos'']], addedRepo := True\<rparr>"

definition addedTwice :: Model where
  "addedTwice = addedOnce\<lparr>repoCfgs := [''photos'' \<mapsto> photosCfg []], repoNodes := [''photos'' \<mapsto> []]\<rparr>"

definition introducerCfg :: Configuration where
  "introducerCfg =
     \<lparr>cfgNodes = [\<lparr>ncNodeID = 7, ncName = ''n7'', ncIntroducer = True\<rparr>],
      cfgRepositories = [photosCfg [7]], cfgSaved = 0\<rparr>"

definition announce :: ClusterConfigMessage where
  "announce =
     \<lparr>ClientName = ''syncthing'', ClientVersion = ''v0.9'', Options = [],
      Repositories = [\<lparr>prID = ''photos'',
                       prNodes = [\<lparr>pnID = 7, pnFlags = 1\<rparr>, \<lparr>pnID = 9, pnFlags = 1\<rparr>]\<rparr>]\<rparr>"

definition introduced :: World where
  "introduced =
     (case AddRepo (photosCfg [7]) (NewModel introducerCfg) of
        None \<Rightarrow> newWorld introducerCfg
      | Some m1 \<Rightarrow>
          (case ClusterConfig 7 announce m1 of
             None \<Rightarrow> newWorld introducerCfg
           | Some m2 \<Rightarrow> (newWorld introducerCfg)\<lparr>model := m2\<rparr>))"

text \<open>
  The invariant the proof carries: the symmetry, and that a repository without
  configuration in the model has no sharing list.
\<close>

definition sharingInv :: "Model \<Rightarrow> bool" where
  "sharingInv m = (sharingSymmetric m \<and> (\<forall>r. repoCfgs m r = None \<longrightarrow> repoNodes m r = None))"

section \<open>The scanner driver\<close>

definition batchSize :: nat where
  "batchSize = 100"

text \<open>
  The first loop of ScanRepoSub, over the files the walker delivers: the event, a flush
  of a full batch, the append; then the flush of what is left.
\<close>

definition firstPass_step ::
  "(FileInfo \<Rightarrow> int) \<Rightarrow> string \<Rightarrow> FileInfo \<Rightarrow> FileInfo list \<times> IndexSet \<times> event list
     \<Rightarrow> FileInfo list \<times> IndexSet \<times> event list" where
  "firstPass_step sz repo f st =
     (case st of (b, s, ev) \<Rightarrow>
        (let ev1 = ev @ [LocalIndexUpdated repo (Name f) (Modified f) (Flags f) (sz f)] in
         if length b = batchSize then ([f], Update s LocalNodeID b, ev1)
         else (b @ [f], s, ev1)))"

definition firstPass ::
  "(FileInfo \<Rightarrow> int) \<Rightarrow> string \<Rightarrow> FileInfo list \<Rightarrow> IndexSet \<times> event list \<Rightarrow> IndexSet \<times> event list" where
  "firstPass sz repo files st =
     (case fold (firstPass_step sz repo) files ([], fst st, snd st) of
        (b, s, ev) \<Rightarrow> (if length b > 0 then Update s LocalNodeID b else s, ev))"

text \<open>
  The second pass. The visitor captures seenPrefix and the batch; it writes to the index
  set (a flush), to the clock (Tick) and to the event log. The traversal itself runs over
  the snapshot of the local replica taken when it starts.
\<close>

record scanState =
  seenPrefix :: bool
  scanBatch :: "FileInfo list"
  scanSet :: IndexSet
  scanClock :: "64 word"
  scanEvents :: "event list"

definition scanFlush :: "scanState \<Rightarrow> scanState" where
  "scanFlush st =
     (if length (scanBatch st) = batchSize
      then st\<lparr>scanSet := Update (scanSet st) LocalNodeID (scanBatch st), scanBatch := []\<rparr>
      else st)"

definition scan_visit ::
  "(FileInfo \<Rightarrow> int) \<Rightarrow> string \<Rightarrow> string \<Rightarrow> string \<Rightarrow> Patterns \<Rightarrow> (string \<Rightarrow> bool)
     \<Rightarrow> scanState \<Rightarrow> FileInfo \<Rightarrow> bool \<times> scanState" where
  "scan_visit sz repo sub dir ignores notExist st f =
     (if \<not> prefix sub (Name f) then (\<not> seenPrefix st, st)
      else
        (let st1 = st\<lparr>seenPrefix := True\<rparr> in
         if \<not> IsDeleted (Flags f) then
           (if IsInvalid (Flags f) then (True, st1)
            else
              (let st2 = scanFlush st1 in
               if ignores (Name f) then
                 (True, st2\<lparr>scanEvents := scanEvents st2 @
                               [LocalIndexUpdated repo (Name f) (Modified f) (Flags f) (sz f)],
                             scanBatch := scanBatch st2 @
                               [\<lparr>Name = Name f, Flags = Flags f OR FlagInvalid,
                                 Modified = Modified f, Version = Version f,
                                 LocalVersion = 0, Blocks = []\<rparr>]\<rparr>)
               else if notExist (pathJoin dir (Name f)) then
                 (True, st2\<lparr>scanClock := Tick (scanClock st2) (Version f),
                             scanEvents := scanEvents st2 @
                               [LocalIndexUpdated repo (Name f) (Modified f) (Flags f) (sz f)],
                             scanBatch := scanBatch st2 @
                               [\<lparr>Name = Name f, Flags = Flags f OR FlagDeleted,
                                 Modified = Modified f,
                                 Version = Tick (scanClock st2) (Version f),
                                 LocalVersion = 0, Blocks = []\<rparr>]\<rparr>)
               else (True, st2)))
         else (True, st1)))"

definition secondPass ::
  "(FileInfo \<Rightarrow> int) \<Rightarrow> string \<Rightarrow> string \<Rightarrow> string \<Rightarrow> Patterns \<Rightarrow> (string \<Rightarrow> bool)
     \<Rightarrow> IndexSet \<times> 64 word \<times> event list \<Rightarrow> IndexSet \<times> 64 word \<times> event list" where
  "secondPass sz repo sub dir ignores notExist start =
     (case start of (fs, clock, ev) \<Rightarrow>
        (let st = iterate (scan_visit sz repo sub dir ignores notExist) (haveList fs LocalNodeID)
                    \<lparr>seenPrefix = False, scanBatch = [], scanSet = fs, scanClock = clock,
                     scanEvents = ev\<rparr>
         in (if length (scanBatch st) > 0 then Update (scanSet st) LocalNodeID (scanBatch st)
             else scanSet st,
             scanClock st, scanEvents st)))"

text \<open>
  What ScanRepoSub takes from outside the model: the cleaned joined path, the patterns
  ignore.Load returns, what the walker delivers (None: Walk returns an error), which
  paths os.Stat reports as not existing, and the four readings of the clock in the two
  calls of setState.
\<close>

record ScanEnv =
  cleanedPath :: string
  loadedIgnores :: Patterns
  walked :: "FileInfo list option"
  statNotExist :: "string \<Rightarrow> bool"
  scanTimes :: "int \<times> int \<times> int \<times> int"

datatype scanError = InvalidSubpath | NoSuchRepo | WalkError

definition ScanRepoSub ::
  "(FileInfo \<Rightarrow> int) \<Rightarrow> ScanEnv \<Rightarrow> string \<Rightarrow> string \<Rightarrow> World \<Rightarrow> scanError option \<times> World" where
  "ScanRepoSub sz env repo sub w =
     (if \<not> prefix repo (cleanedPath env) then (Some InvalidSubpath, w)
      else
        (let m = model w;
             dir = repoDirectory m repo;
             ignores = loadedIgnores env;
             w1 = w\<lparr>model := m\<lparr>repoIgnores := (repoIgnores m)(repo \<mapsto> ignores)\<rparr>\<rparr>
         in case repoFiles m repo of
              None \<Rightarrow> (Some NoSuchRepo, w1)
            | Some fs \<Rightarrow>
                (case scanTimes env of (t1, t2, t3, t4) \<Rightarrow>
                   (let w2 = setState t1 t2 repo RepoScanning w1 in
                    case walked env of
                      None \<Rightarrow> (Some WalkError, w2)
                    | Some files \<Rightarrow>
                        (case firstPass sz repo files (fs, events w2) of
                           (fs1, ev1) \<Rightarrow>
                             (case secondPass sz repo sub dir ignores (statNotExist env)
                                     (fs1, lamport w2, ev1) of
                                (fs2, c2, ev2) \<Rightarrow>
                                  (None,
                                   setState t3 t4 repo RepoIdle
                                     (w2\<lparr>model := (model w2)\<lparr>repoFiles :=
                                                       (repoFiles (model w2))(repo \<mapsto> fs2)\<rparr>,
                                         lamport := c2, events := ev2\<rparr>))))))))"

text \<open>
  The states the model reaches from NewModel by its operations, where AddRepo is called
  with a repository id that was not added before.
\<close>

inductive reachable :: "World \<Rightarrow> bool" where
  reach_new: "reachable (newWorld c)"
| reach_AddRepo:
    "reachable w \<Longrightarrow> repoCfgs (model w) (ID rc) = None \<Longrightarrow> AddRepo rc (model w) = Some m'
       \<Longrightarrow> reachable (w\<lparr>model := m'\<rparr>)"
| reach_ClusterConfig:
    "reachable w \<Longrightarrow> ClusterConfig n cm (model w) = Some m' \<Longrightarrow> reachable (w\<lparr>model := m'\<rparr>)"
| reach_Close: "reachable w \<Longrightarrow> Close n e w = Some w' \<Longrightarrow> reachable w'"
| reach_Index: "reachable w \<Longrightarrow> Index n r fs w = Some w' \<Longrightarrow> reachable w'"
| reach_IndexUpdate: "reachable w \<Longrightarrow> IndexUpdate n r fs w = Some w' \<Longrightarrow> reachable w'"
| reach_setState: "reachable w \<Longrightarrow> reachable (setState now since r s w)"
| reach_ScanRepoSub:
    "reachable w \<Longrightarrow> ScanRepoSub sz env r sub w = (e, w') \<Longrightarrow> reachable w'"

text \<open>
  The words of the claim about the second pass: an entry the pass must mark as deleted,
  the clock when the pass reaches an entry (ticked by the versions of the entries marked
  before it), and the replica as it is once the pending batch is written.
\<close>

definition vanished :: "string \<Rightarrow> string \<Rightarrow> Patterns \<Rightarrow> (string \<Rightarrow> bool) \<Rightarrow> FileInfo \<Rightarrow> bool" where
  "vanished sub dir ignores notExist f =
     (prefix sub (Name f) \<and> \<not> IsDeleted (Flags f) \<and> \<not> IsInvalid (Flags f) \<and>
      \<not> ignores (Name f) \<and> notExist (pathJoin dir (Name f)))"

definition clockAt ::
  "string \<Rightarrow> string \<Rightarrow> Patterns \<Rightarrow> (string \<Rightarrow> bool) \<Rightarrow> 64 word \<Rightarrow> FileInfo list \<Rightarrow> FileInfo \<Rightarrow> 64 word" where
  "clockAt sub dir ignores notExist clock xs f =
     fold (\<lambda>v k. Tick k v)
       (map Version (filter (vanished sub dir ignores notExist) (takeWhile (\<lambda>y. Name y \<noteq> Name f) xs)))
       clock"

definition pendingReplica :: "scanState \<Rightarrow> Replica" where
  "pendingReplica st = fold upsert (scanBatch st) (replicaOf (scanSet st) LocalNodeID)"

text \<open>
  An entry of a replica stands marked as deleted for f ticked at clock c: the entry under
  the name of f has the flags of f with Deleted added, the modification time of f, and
  the version Tick gives for the version of f at clock c.
\<close>

definition markedDeleted :: "Replica \<Rightarrow> FileInfo \<Rightarrow> 64 word \<Rightarrow> bool" where
  "markedDeleted r f c =
     (case find (\<lambda>e. Name e = Name f) (entries r) of
        None \<Rightarrow> False
      | Some e \<Rightarrow> Flags e = Flags f OR FlagDeleted \<and> Modified e = Modified f \<and>
                  Version e = Tick c (Version f))"

text \<open>A repository with a sharing list has an index set.\<close>

definition filesInv :: "Model \<Rightarrow> bool" where
  "filesInv m = (\<forall>r. repoNodes m r \<noteq> None \<longrightarrow> repoFiles m r \<noteq> None)"

text \<open>
  A world that holds the repository photos after a first scan, and the surroundings of a
  second scan after a.jpg was removed from the disk.
\<close>

definition scannedWorld :: World where
  "scannedWorld =
     \<lparr>model = (photosModel (localOnly [mkFile ''b.jpg'' 0 1 [5], mkFile ''a.jpg'' 0 1 [10]]))
                \<lparr>repoCfgs := [''photos'' \<mapsto> photosCfg []]\<rparr>,
      lamport = 1, events = []\<rparr>"

definition rescanEnv :: ScanEnv where
  "rescanEnv =
     \<lparr>cleanedPath = ''photos'', loadedIgnores = noPatterns, walked = Some [],
      statNotExist = (\<lambda>p. p = ''/data/photos/a.jpg''), scanTimes = (1, 2, 3, 4)\<rparr>"

section \<open>Properties\<close>

text \<open>
  C7 (counterexample). The claim says every real transition emits a StateChanged event
  carrying from, to and duration. On the first transition of a repository no change time
  is recorded yet, and the event carries neither from nor duration.
\<close>

theorem C7_first_transition_counterexample:
  "events (setState 5 6 ''photos'' RepoScanning (newWorld emptyConfiguration))
     = [StateChanged ''photos'' ''scanning'' None None]"
  by (simp add: setState_def newWorld_def NewModel_def logEvent_def currentState_def)

text \<open>
  C7 (amended). setState repo s: when s equals the repository's current state nothing
  changes and no event is emitted; when s differs, the state becomes s,
  repoStateChanged[repo] is set to the current time, and exactly one StateChanged event
  is emitted, carrying to (the new state) and, only when a previous change time is
  recorded, from (the old state) and duration (the time of the second clock reading
  minus the previous change time).
\<close>

theorem C7_setState:
  "(s = currentState (model w) repo \<longrightarrow> setState now since repo s w = w) \<and>
         (s \<noteq> currentState (model w) repo \<longrightarrow>
            repoStates (model (setState now since repo s w)) repo = Some s \<and>
            repoStateChanged (model (setState now since repo s w)) repo = Some now \<and>
            events (setState now since repo s w) =
              events w @
                [StateChanged repo (repoState_String s)
                   (map_option (\<lambda>c. since - c) (repoStateChanged (model w) repo))
                   (map_option (\<lambda>c. repoState_String (currentState (model w) repo))
                      (repoStateChanged (model w) repo))])"
  by (cases "repoStateChanged (model w) repo")
     (simp_all add: setState_def logEvent_def Let_def)

theorem C7_setState_witness:
  "setState 5 6 ''photos'' RepoIdle (newWorld emptyConfiguration) = newWorld emptyConfiguration \<and>
   events (setState 9 10 ''photos'' RepoIdle
             (setState 5 6 ''photos'' RepoScanning (newWorld emptyConfiguration)))
     = [StateChanged ''photos'' ''scanning'' None None,
        StateChanged ''photos'' ''idle'' (Some 5) (Some ''scanning'')]"
proof -
  let ?w0 = "newWorld emptyConfiguration"
  let ?w1 = "setState 5 6 ''photos'' RepoScanning ?w0"
  have a: "currentState (model ?w0) ''photos'' = RepoIdle"
    by (simp add: newWorld_def NewModel_def currentState_def)
  have b: "currentState (model ?w1) ''photos'' = RepoScanning"
    "repoStateChanged (model ?w1) ''photos'' = Some 5"
    "events ?w1 = [StateChanged ''photos'' ''scanning'' None None]"
    by (simp_all add: setState_def newWorld_def NewModel_def logEvent_def currentState_def)
  from C7_setState [of RepoIdle ?w0 "''photos''" 5 6] a
  have c: "setState 5 6 ''photos'' RepoIdle ?w0 = ?w0" by simp
  from C7_setState [of RepoIdle ?w1 "''photos''" 9 10] b
  have d: "events (setState 9 10 ''photos'' RepoIdle ?w1) =
             [StateChanged ''photos'' ''scanning'' None None,
              StateChanged ''photos'' ''idle'' (Some 5) (Some ''scanning'')]"
    by simp
  from c d show ?thesis by simp
qed

subsection \<open>LocalSize\<close>

lemma iterate_LocalSize:
  "iterate (LocalSize_visit sz) xs (a, b, c) =
     (a + int (length (filter (\<lambda>f. \<not> IsInvalid (Flags f) \<and> \<not> IsDeleted (Flags f)) xs)),
      b + int (length (filter (\<lambda>f. \<not> IsInvalid (Flags f) \<and> IsDeleted (Flags f)) xs)),
      c + sum_list (map sz (filter (\<lambda>f. \<not> IsInvalid (Flags f)) xs)))"
  by (induction xs arbitrary: a b c) (simp_all add: LocalSize_visit_def sizeOfFile_def)

lemma mset_haveList: "mset (haveList s n) = mset (entries (replicaOf s n))"
  by (simp add: haveList_def)

lemma length_filter_mset_eq:
  assumes "mset xs = mset ys"
  shows "length (filter P xs) = length (filter P ys)"
proof -
  have "mset (filter P xs) = mset (filter P ys)"
    using assms by simp
  then show ?thesis by (rule mset_eq_length)
qed

lemma sum_list_filter_mset_eq:
  fixes f :: "'a \<Rightarrow> int"
  assumes "mset xs = mset ys"
  shows "sum_list (map f (filter P xs)) = sum_list (map f (filter P ys))"
proof -
  have "mset (map f (filter P xs)) = mset (map f (filter P ys))"
    using assms by simp
  then have "sum_mset (mset (map f (filter P xs))) = sum_mset (mset (map f (filter P ys)))"
    by (rule arg_cong)
  then show ?thesis by (simp only: sum_mset_sum_list)
qed

text \<open>
  C9. LocalSize skips every Invalid entry of the local replica: such an entry adds to
  none of the three results. Every other entry adds its size to the byte total, and adds
  one to the deleted count when it is Deleted and one to the file count when it is not.
  An unknown repository gives (0, 0, 0).
\<close>

theorem C9_LocalSize:
  "LocalSize sz m repo =
     (case repoFiles m repo of
        None \<Rightarrow> (0, 0, 0)
      | Some rf \<Rightarrow>
          (int (length (filter (\<lambda>f. \<not> IsInvalid (Flags f) \<and> \<not> IsDeleted (Flags f))
                  (entries (replicaOf rf LocalNodeID)))),
           int (length (filter (\<lambda>f. \<not> IsInvalid (Flags f) \<and> IsDeleted (Flags f))
                  (entries (replicaOf rf LocalNodeID)))),
           sum_list (map sz (filter (\<lambda>f. \<not> IsInvalid (Flags f))
                  (entries (replicaOf rf LocalNodeID))))))"
proof (cases "repoFiles m repo")
  case None
  then show ?thesis by (simp add: LocalSize_def)
next
  case (Some rf)
  have p: "mset (haveList rf LocalNodeID) = mset (entries (replicaOf rf LocalNodeID))"
    by (rule mset_haveList)
  show ?thesis
    using length_filter_mset_eq [OF p] sum_list_filter_mset_eq [OF p]
    by (simp add: LocalSize_def Some iterate_LocalSize)
qed

theorem C9_LocalSize_witness:
  "LocalSize blocksSize
     (photosModel (localOnly [mkFile ''b'' 0 1 [10], mkFile ''a'' FlagDeleted 2 [5],
                              mkFile ''c'' FlagInvalid 3 [7],
                              mkFile ''d'' (FlagInvalid OR FlagDeleted) 4 [9]]))
     ''photos'' = (1, 1, 15)"
  using C9_LocalSize [of blocksSize
     "photosModel (localOnly [mkFile ''b'' 0 1 [10], mkFile ''a'' FlagDeleted 2 [5],
                              mkFile ''c'' FlagInvalid 3 [7],
                              mkFile ''d'' (FlagInvalid OR FlagDeleted) 4 [9]])" "''photos''"]
  by (simp add: photosModel_def localOnly_def mkFile_def blocksSize_def IsInvalid_def
      IsDeleted_def FlagInvalid_def FlagDeleted_def)

subsection \<open>Request\<close>

lemma ReadAt_error: "ReadAt content nbytes offset = Inl e \<Longrightarrow> e = OsError"
  by (auto simp: ReadAt_def split: if_splits)

text \<open>
  C1 (counterexample). The claim makes NoSuchFile the result whenever the offset exceeds
  the size of the local entry. The flag check comes first: for an Invalid entry of ten
  bytes and offset eleven the result is Invalid.
\<close>

theorem C1_invalid_before_offset_counterexample:
  "snd (Request blocksSize Map.empty
          (photosModel (localOnly [mkFile ''a.jpg'' FlagInvalid 1 [10]]))
          1 ''photos'' ''a.jpg'' 11 1) = Inl ErrInvalid \<and>
   blocksSize (Get (localOnly [mkFile ''a.jpg'' FlagInvalid 1 [10]]) LocalNodeID ''a.jpg'') < 11"
  by (simp add: Request_def photosModel_def localOnly_def mkFile_def blocksSize_def Get_def
      IsInvalid_def FlagInvalid_def)

text \<open>
  C1 (amended). Request never changes the model. For a repository unknown to the model
  the result is NoSuchFile. For a known repository, with lf the local entry for the name
  (the zero entry when the name is absent): the result is Invalid exactly when lf has the
  Invalid or the Deleted flag; when lf has neither flag and the offset exceeds the size
  of lf the result is NoSuchFile; and for a name present in the local replica these are
  the only requests answered with NoSuchFile.
\<close>

theorem C1_Request:
  "fst (Request sz disk m nodeID repo name offset nbytes) = m \<and>
   (repoFiles m repo = None \<longrightarrow>
      snd (Request sz disk m nodeID repo name offset nbytes) = Inl ErrNoSuchFile) \<and>
   (\<forall>r. repoFiles m repo = Some r \<longrightarrow>
      (snd (Request sz disk m nodeID repo name offset nbytes) = Inl ErrInvalid \<longleftrightarrow>
         IsInvalid (Flags (Get r LocalNodeID name)) \<or> IsDeleted (Flags (Get r LocalNodeID name))) \<and>
      (\<not> IsInvalid (Flags (Get r LocalNodeID name)) \<and> \<not> IsDeleted (Flags (Get r LocalNodeID name)) \<and>
       offset > sz (Get r LocalNodeID name) \<longrightarrow>
         snd (Request sz disk m nodeID repo name offset nbytes) = Inl ErrNoSuchFile) \<and>
      (name \<in> Name ` set (entries (replicaOf r LocalNodeID)) \<and>
       snd (Request sz disk m nodeID repo name offset nbytes) = Inl ErrNoSuchFile \<longrightarrow>
         \<not> IsInvalid (Flags (Get r LocalNodeID name)) \<and> \<not> IsDeleted (Flags (Get r LocalNodeID name)) \<and>
         offset > sz (Get r LocalNodeID name)))"
  by (auto simp: Request_def Let_def split: option.splits if_splits dest: ReadAt_error)

theorem C1_Request_witness:
  "Request blocksSize Map.empty
          (photosModel (localOnly [mkFile ''a.jpg'' 0 1 [10]]))
          1 ''photos'' ''a.jpg'' 11 1 = (photosModel (localOnly [mkFile ''a.jpg'' 0 1 [10]]), Inl ErrNoSuchFile) \<and>
   snd (Request blocksSize Map.empty
          (photosModel (localOnly [mkFile ''a.jpg'' FlagDeleted 1 [10]]))
          1 ''photos'' ''a.jpg'' 0 1) = Inl ErrInvalid \<and>
   snd (Request blocksSize Map.empty
          (photosModel (localOnly [mkFile ''a.jpg'' 0 1 [10]]))
          1 ''music'' ''a.jpg'' 0 1) = Inl ErrNoSuchFile"
  using C1_Request [of blocksSize Map.empty "photosModel (localOnly [mkFile ''a.jpg'' 0 1 [10]])"
      1 "''photos''" "''a.jpg''" 11 1]
    C1_Request [of blocksSize Map.empty "photosModel (localOnly [mkFile ''a.jpg'' FlagDeleted 1 [10]])"
      1 "''photos''" "''a.jpg''" 0 1]
    C1_Request [of blocksSize Map.empty "photosModel (localOnly [mkFile ''a.jpg'' 0 1 [10]])"
      1 "''music''" "''a.jpg''" 0 1]
  by (simp add: photosModel_def localOnly_def mkFile_def blocksSize_def Get_def
      IsInvalid_def IsDeleted_def FlagInvalid_def FlagDeleted_def prod_eq_iff)

subsection \<open>Index and IndexUpdate from a node that does not share the repository\<close>

text \<open>
  C2 (counterexample). The claim has IndexUpdate emit a RepoRejected event for a node
  that does not share the repository. IndexUpdate returns after its log line: the event
  log stays empty.
\<close>

theorem C2_IndexUpdate_no_event_counterexample:
  "IndexUpdate 7 ''photos'' [mkFile ''b.jpg'' 0 7 [5]] (newWorld emptyConfiguration)
     = Some (newWorld emptyConfiguration) \<and>
   events (newWorld emptyConfiguration) = [] \<and>
   \<not> repoSharedWith (model (newWorld emptyConfiguration)) ''photos'' 7"
  by (simp add: IndexUpdate_def repoSharedWith_def newWorld_def NewModel_def)

text \<open>
  C2 (amended). When the sending node does not share the repository, Index leaves the
  model (every index set and the connection tables) and the clock unchanged, appends one
  RepoRejected event and returns normally; IndexUpdate changes nothing at all and
  returns normally. Neither ends the process nor touches the connection.
\<close>

theorem C2_unauthorized:
  "\<not> repoSharedWith (model w) repo nodeID \<Longrightarrow>
     Index nodeID repo fs w = Some (w\<lparr>events := events w @ [RepoRejected repo nodeID]\<rparr>) \<and>
     IndexUpdate nodeID repo fs w = Some w"
  by (simp add: Index_def IndexUpdate_def logEvent_def)

theorem C2_unauthorized_witness:
  "\<not> repoSharedWith (model (newWorld emptyConfiguration)) ''photos'' 7 \<and>
   Index 7 ''photos'' [mkFile ''b.jpg'' 0 7 [5]] (newWorld emptyConfiguration)
     = Some ((newWorld emptyConfiguration)\<lparr>events := [RepoRejected ''photos'' 7]\<rparr>) \<and>
   IndexUpdate 7 ''photos'' [mkFile ''b.jpg'' 0 7 [5]] (newWorld emptyConfiguration)
     = Some (newWorld emptyConfiguration)"
proof -
  have h: "\<not> repoSharedWith (model (newWorld emptyConfiguration)) ''photos'' 7"
    by (simp add: repoSharedWith_def newWorld_def NewModel_def)
  have e: "events (newWorld emptyConfiguration) = []"
    by (simp add: newWorld_def)
  show ?thesis
    using h C2_unauthorized [OF h, of "[mkFile ''b.jpg'' 0 7 [5]]"] e by simp
qed

subsection \<open>Index from a node that shares the repository\<close>

lemma swap_remove_take:
  assumes "i < length fs"
  shows "take i (butlast (fs[i := last fs])) = take i fs"
  using assms by (simp add: butlast_conv_take)

lemma swap_remove_drop:
  assumes "i < length fs"
  shows "mset (drop i (butlast (fs[i := last fs]))) = mset (drop (Suc i) fs)"
proof (cases "Suc i = length fs")
  case True
  then show ?thesis by (simp add: butlast_conv_take)
next
  case False
  define ys where "ys = drop (Suc i) fs"
  from False assms have ne: "ys \<noteq> []" by (simp add: ys_def)
  have fs: "fs = take i fs @ fs ! i # ys"
    using assms by (simp add: ys_def id_take_nth_drop)
  have l: "last fs = last ys"
    using ne by (subst fs) simp
  have li: "length (take i fs) = i" using assms by simp
  have "fs[i := last fs] = take i fs @ last ys # ys"
    using assms by (subst fs) (simp add: l list_update_append min_def)
  then have "butlast (fs[i := last fs]) = take i fs @ last ys # butlast ys"
    using ne by (simp add: butlast_append)
  then have "drop i (butlast (fs[i := last fs])) = last ys # butlast ys"
    using li by simp
  moreover have "mset (last ys # butlast ys) = mset ys"
  proof -
    have "mset ys = mset (butlast ys @ [last ys])" using ne by simp
    then show ?thesis by simp
  qed
  ultimately show ?thesis by (simp add: ys_def)
qed


lemma dropIgnored_kept:
  "mset (fst (dropIgnored ig i fs c)) =
     mset (take i fs) + filter_mset (\<lambda>f. \<not> ig (Name f)) (mset (drop i fs))"
proof (induction ig i fs c rule: dropIgnored.induct)
  case (1 ig i fs c)
  show ?case
  proof (cases "i < length fs")
    case False
    then show ?thesis by (subst dropIgnored.simps) simp
  next
    case lt: True
    have d: "drop i fs = fs ! i # drop (Suc i) fs"
      using lt by (simp add: Cons_nth_drop_Suc)
    show ?thesis
    proof (cases "ig (Name (fs ! i))")
      case True
      have "mset (fst (dropIgnored ig i fs c)) =
              mset (fst (dropIgnored ig i (butlast (fs[i := last fs])) (Tick c (Version (fs ! i)))))"
        using lt True by (subst dropIgnored.simps) simp
      also have "\<dots> = mset (take i fs) + filter_mset (\<lambda>f. \<not> ig (Name f)) (mset (drop (Suc i) fs))"
        using "1.IH"(1) [OF lt True] lt by (simp add: swap_remove_take swap_remove_drop)
      finally show ?thesis using True by (simp add: d)
    next
      case False
      have "mset (fst (dropIgnored ig i fs c)) =
              mset (fst (dropIgnored ig (i + 1) fs (Tick c (Version (fs ! i)))))"
        using lt False by (subst dropIgnored.simps) simp
      also have "\<dots> = mset (take (Suc i) fs) + filter_mset (\<lambda>f. \<not> ig (Name f)) (mset (drop (Suc i) fs))"
        using "1.IH"(2) [OF lt False] by simp
      finally show ?thesis using False lt by (simp add: d take_Suc_conv_app_nth)
    qed
  qed
qed

lemma dropIgnored_ticks:
  "\<exists>vs. mset vs = mset (map Version (drop i fs)) \<and>
        snd (dropIgnored ig i fs c) = fold (\<lambda>v k. Tick k v) vs c"
proof (induction ig i fs c rule: dropIgnored.induct)
  case (1 ig i fs c)
  show ?case
  proof (cases "i < length fs")
    case False
    then have "snd (dropIgnored ig i fs c) = c" by (subst dropIgnored.simps) simp
    with False show ?thesis by (intro exI [of _ "[]"]) simp
  next
    case lt: True
    have d: "drop i fs = fs ! i # drop (Suc i) fs"
      using lt by (simp add: Cons_nth_drop_Suc)
    show ?thesis
    proof (cases "ig (Name (fs ! i))")
      case True
      have e: "snd (dropIgnored ig i fs c) =
              snd (dropIgnored ig i (butlast (fs[i := last fs])) (Tick c (Version (fs ! i))))"
        using lt True by (subst dropIgnored.simps) simp
      from "1.IH"(1) [OF lt True] obtain vs where
        vs: "mset vs = mset (map Version (drop i (butlast (fs[i := last fs]))))"
          "snd (dropIgnored ig i (butlast (fs[i := last fs])) (Tick c (Version (fs ! i)))) =
             fold (\<lambda>v k. Tick k v) vs (Tick c (Version (fs ! i)))"
        by blast
      have "mset vs = image_mset Version (mset (drop (Suc i) fs))"
        using vs(1) swap_remove_drop [OF lt] by simp
      then have "mset (Version (fs ! i) # vs) = mset (map Version (drop i fs))"
        by (simp add: d)
      moreover have "snd (dropIgnored ig i fs c) = fold (\<lambda>v k. Tick k v) (Version (fs ! i) # vs) c"
        using e vs(2) by simp
      ultimately show ?thesis by blast
    next
      case False
      have e: "snd (dropIgnored ig i fs c) =
              snd (dropIgnored ig (i + 1) fs (Tick c (Version (fs ! i))))"
        using lt False by (subst dropIgnored.simps) simp
      from "1.IH"(2) [OF lt False] obtain vs where
        vs: "mset vs = mset (map Version (drop (i + 1) fs))"
          "snd (dropIgnored ig (i + 1) fs (Tick c (Version (fs ! i)))) =
             fold (\<lambda>v k. Tick k v) vs (Tick c (Version (fs ! i)))"
        by blast
      have "mset (Version (fs ! i) # vs) = mset (map Version (drop i fs))"
        using vs(1) by (simp add: d)
      moreover have "snd (dropIgnored ig i fs c) = fold (\<lambda>v k. Tick k v) (Version (fs ! i) # vs) c"
        using e vs(2) by simp
      ultimately show ?thesis by blast
    qed
  qed
qed

text \<open>
  C6. For an Index from a node that shares the repository (whose index set exists): the
  clock is ticked once with the version of every incoming entry (in the order the loop
  visits them, a rearrangement of the incoming list); the entries whose names match the
  repository's ignore patterns are dropped and exactly the others, each once, are handed
  to Replace for the node's replica; and one RemoteIndexUpdated event is emitted whose
  items field is the number of entries that were not ignored.
\<close>

theorem C6_Index:
  assumes "repoSharedWith (model w) repo nodeID"
    and "repoFiles (model w) repo = Some files"
  shows "\<exists>kept vs.
     mset kept = mset (filter (\<lambda>f. \<not> ignoresOf (model w) repo (Name f)) fs) \<and>
     mset vs = mset (map Version fs) \<and>
     Index nodeID repo fs w =
       Some (w\<lparr>model := (model w)\<lparr>repoFiles := (repoFiles (model w))(repo \<mapsto> Replace files nodeID kept)\<rparr>,
               lamport := fold (\<lambda>v k. Tick k v) vs (lamport w),
               events := events w @
                 [RemoteIndexUpdated nodeID repo
                    (length (filter (\<lambda>f. \<not> ignoresOf (model w) repo (Name f)) fs))
                    (Set_LocalVersion (Replace files nodeID kept) nodeID)]\<rparr>)"
proof -
  obtain kept c' where dr: "dropIgnored (ignoresOf (model w) repo) 0 fs (lamport w) = (kept, c')"
    by (cases "dropIgnored (ignoresOf (model w) repo) 0 fs (lamport w)")
  have k: "mset kept = mset (filter (\<lambda>f. \<not> ignoresOf (model w) repo (Name f)) fs)"
    using dropIgnored_kept [of "ignoresOf (model w) repo" 0 fs "lamport w"] dr by simp
  from dropIgnored_ticks [of 0 fs "ignoresOf (model w) repo" "lamport w"] dr
  obtain vs where vs: "mset vs = mset (map Version fs)" "c' = fold (\<lambda>v k. Tick k v) vs (lamport w)"
    by auto
  have len: "length kept = length (filter (\<lambda>f. \<not> ignoresOf (model w) repo (Name f)) fs)"
    using k by (rule mset_eq_length)
  have "Index nodeID repo fs w =
       Some (w\<lparr>model := (model w)\<lparr>repoFiles := (repoFiles (model w))(repo \<mapsto> Replace files nodeID kept)\<rparr>,
               lamport := fold (\<lambda>v k. Tick k v) vs (lamport w),
               events := events w @
                 [RemoteIndexUpdated nodeID repo
                    (length (filter (\<lambda>f. \<not> ignoresOf (model w) repo (Name f)) fs))
                    (Set_LocalVersion (Replace files nodeID kept) nodeID)]\<rparr>)"
    using assms dr vs(2) len by (simp add: Index_def logEvent_def Let_def)
  with k vs(1) show ?thesis by blast
qed


theorem C6_Index_witness:
  "repoSharedWith (model (sharedWorld (\<lambda>n. n = ''b.jpg''))) ''photos'' 7 \<and>
   repoFiles (model (sharedWorld (\<lambda>n. n = ''b.jpg''))) ''photos'' = Some NewSet \<and>
   map_option events (Index 7 ''photos'' [mkFile ''b.jpg'' 0 7 [5]] (sharedWorld (\<lambda>n. n = ''b.jpg'')))
     = Some [RemoteIndexUpdated 7 ''photos'' 0 0] \<and>
   map_option lamport (Index 7 ''photos'' [mkFile ''b.jpg'' 0 7 [5]] (sharedWorld (\<lambda>n. n = ''b.jpg'')))
     = Some 8"
proof -
  let ?w = "sharedWorld (\<lambda>n. n = ''b.jpg'')"
  have h1: "repoSharedWith (model ?w) ''photos'' 7"
    by (simp add: sharedWorld_def repoSharedWith_def)
  have h2: "repoFiles (model ?w) ''photos'' = Some NewSet"
    by (simp add: sharedWorld_def photosModel_def)
  have ig: "ignoresOf (model ?w) ''photos'' = (\<lambda>n. n = ''b.jpg'')"
    by (simp add: sharedWorld_def ignoresOf_def)
  from C6_Index [OF h1 h2, of "[mkFile ''b.jpg'' 0 7 [5]]"] obtain kept vs where
    k: "mset kept = mset (filter (\<lambda>f. \<not> ignoresOf (model ?w) ''photos'' (Name f)) [mkFile ''b.jpg'' 0 7 [5]])"
    and v: "mset vs = mset (map Version [mkFile ''b.jpg'' 0 7 [5]])"
    and r: "Index 7 ''photos'' [mkFile ''b.jpg'' 0 7 [5]] ?w =
       Some (?w\<lparr>model := (model ?w)\<lparr>repoFiles := (repoFiles (model ?w))(''photos'' \<mapsto> Replace NewSet 7 kept)\<rparr>,
               lamport := fold (\<lambda>v k. Tick k v) vs (lamport ?w),
               events := events ?w @
                 [RemoteIndexUpdated 7 ''photos''
                    (length (filter (\<lambda>f. \<not> ignoresOf (model ?w) ''photos'' (Name f)) [mkFile ''b.jpg'' 0 7 [5]]))
                    (Set_LocalVersion (Replace NewSet 7 kept) 7)]\<rparr>)"
    by blast
  from k have kept: "kept = []" by (simp add: ig mkFile_def)
  from v have vs: "vs = [7]" by (simp add: mkFile_def)
  have lv: "Set_LocalVersion (Replace NewSet 7 []) 7 = 0"
    by (simp add: Set_LocalVersion_def Replace_def setReplica_def NewSet_def emptyReplica_def)
  have e: "events ?w = []" "lamport ?w = 0" by (simp_all add: sharedWorld_def)
  have f: "filter (\<lambda>f. \<not> ignoresOf (model ?w) ''photos'' (Name f)) [mkFile ''b.jpg'' 0 7 [5]] = []"
    by (simp add: ig mkFile_def)
  have res: "Index 7 ''photos'' [mkFile ''b.jpg'' 0 7 [5]] ?w =
       Some (?w\<lparr>model := (model ?w)\<lparr>repoFiles := (repoFiles (model ?w))(''photos'' \<mapsto> Replace NewSet 7 [])\<rparr>,
               lamport := 8, events := [RemoteIndexUpdated 7 ''photos'' 0 0]\<rparr>)"
    unfolding r kept vs f lv e by (simp add: Tick_def)
  show ?thesis
    using h1 h2 by (simp add: res)
qed

subsection \<open>Completion\<close>







subsection \<open>NeedFilesRepoLimited\<close>

text \<open>
  C10 (failing input). The documentation of NeedFilesRepoLimited says that limits less
  than or equal to zero are ignored. For a known repository and a negative maxFiles the
  call does not return a list: make([]protocol.FileInfo, 0, maxFiles) panics.
\<close>

theorem C10_negative_maxFiles_panics:
  "NeedFilesRepoLimited (photosModel (localOnly [])) ''photos'' (- 1) 0 = Inl Panic"
  by (simp add: NeedFilesRepoLimited_def photosModel_def)

text \<open>
  What the function does for the other inputs: nil for an unknown repository; for a
  known one and a maxFiles that is not negative, an initial segment of the need list,
  of at most maxFiles entries when maxFiles is positive, whose entries before the last
  hold fewer than maxBlocks blocks when maxBlocks is positive, and the whole need list
  when neither limit is positive.
\<close>

lemma NeedFiles_visit_step:
  "NeedFiles_visit maxFiles maxBlocks (acc, totalBlocks acc) x =
     (withinLimits maxFiles maxBlocks (acc @ [x]), (acc @ [x], totalBlocks (acc @ [x])))"
  by (simp add: NeedFiles_visit_def withinLimits_def totalBlocks_def)

lemma iterate_NeedFiles:
  assumes "withinLimits maxFiles maxBlocks acc"
  shows "\<exists>ys. fst (iterate (NeedFiles_visit maxFiles maxBlocks) xs (acc, totalBlocks acc)) = acc @ ys \<and>
           prefix ys xs \<and>
           (ys \<noteq> xs \<longrightarrow> \<not> withinLimits maxFiles maxBlocks (acc @ ys)) \<and>
           withinLimits maxFiles maxBlocks (acc @ butlast ys)"
  using assms
proof (induction xs arbitrary: acc)
  case Nil
  then show ?case by simp
next
  case (Cons x xs)
  have tb: "totalBlocks (acc @ [x]) = totalBlocks acc + int (length (Blocks x))"
    by (simp add: totalBlocks_def)
  show ?case
  proof (cases "withinLimits maxFiles maxBlocks (acc @ [x])")
    case True
    from Cons.IH [OF True] obtain ys where
      ys: "fst (iterate (NeedFiles_visit maxFiles maxBlocks) xs (acc @ [x], totalBlocks (acc @ [x]))) = (acc @ [x]) @ ys"
        "prefix ys xs" "ys \<noteq> xs \<longrightarrow> \<not> withinLimits maxFiles maxBlocks ((acc @ [x]) @ ys)"
        "withinLimits maxFiles maxBlocks ((acc @ [x]) @ butlast ys)"
      by blast
    have "fst (iterate (NeedFiles_visit maxFiles maxBlocks) (x # xs) (acc, totalBlocks acc)) = acc @ (x # ys)"
      using True ys(1) by (simp add: NeedFiles_visit_step)
    moreover have "withinLimits maxFiles maxBlocks (acc @ butlast (x # ys))"
      using ys(4) True Cons.prems by (cases ys) simp_all
    ultimately show ?thesis using ys(2,3) Cons.prems
      by (intro exI [of _ "x # ys"]) simp
  next
    case False
    have "fst (iterate (NeedFiles_visit maxFiles maxBlocks) (x # xs) (acc, totalBlocks acc)) = acc @ [x]"
      using False by (simp add: NeedFiles_visit_step)
    then show ?thesis using False Cons.prems
      by (intro exI [of _ "[x]"]) simp
  qed
qed

lemma NeedFilesRepoLimited_unknown:
  "repoFiles m repo = None \<Longrightarrow> NeedFilesRepoLimited m repo maxFiles maxBlocks = Inr None"
  by (simp add: NeedFilesRepoLimited_def)

lemma NeedFilesRepoLimited_known:
  assumes "repoFiles m repo = Some rf" and "0 \<le> maxFiles"
  shows "\<exists>fs. NeedFilesRepoLimited m repo maxFiles maxBlocks = Inr (Some fs) \<and>
           prefix fs (needList rf LocalNodeID) \<and>
           (0 < maxFiles \<longrightarrow> int (length fs) \<le> maxFiles) \<and>
           (0 < maxBlocks \<longrightarrow> fs \<noteq> [] \<longrightarrow> totalBlocks (butlast fs) < maxBlocks) \<and>
           (maxFiles = 0 \<and> maxBlocks \<le> 0 \<longrightarrow> fs = needList rf LocalNodeID)"
proof -
  have w: "withinLimits maxFiles maxBlocks []"
    using assms(2) by (auto simp: withinLimits_def totalBlocks_def)
  from iterate_NeedFiles [OF w, of "needList rf LocalNodeID"] obtain ys where
    ys: "fst (iterate (NeedFiles_visit maxFiles maxBlocks) (needList rf LocalNodeID) ([], 0)) = ys"
      "prefix ys (needList rf LocalNodeID)"
      "ys \<noteq> needList rf LocalNodeID \<longrightarrow> \<not> withinLimits maxFiles maxBlocks ys"
      "withinLimits maxFiles maxBlocks (butlast ys)"
    by (auto simp: totalBlocks_def)
  have r: "NeedFilesRepoLimited m repo maxFiles maxBlocks = Inr (Some ys)"
    using assms ys(1) by (simp add: NeedFilesRepoLimited_def)
  have l: "0 < maxFiles \<longrightarrow> int (length ys) \<le> maxFiles"
    using ys(4) by (cases ys rule: rev_cases) (auto simp: withinLimits_def)
  have b: "0 < maxBlocks \<longrightarrow> ys \<noteq> [] \<longrightarrow> totalBlocks (butlast ys) < maxBlocks"
    using ys(4) by (auto simp: withinLimits_def)
  have a: "maxFiles = 0 \<and> maxBlocks \<le> 0 \<longrightarrow> ys = needList rf LocalNodeID"
    using ys(3) by (auto simp: withinLimits_def)
  from r ys(2) l b a show ?thesis by blast
qed

subsection \<open>sendIndexTo\<close>

lemma sendInv_addToBatch [simp]: "sendInv repo (addToBatch f st) = sendInv repo st"
  by (simp add: sendInv_def addToBatch_def)

lemma sendInv_visit:
  assumes "sendInv repo st" and "\<not> sendErr st"
  shows "sendInv repo (snd (sendIndex_visit fails minLocalVer repo ignores st f)) \<and>
         (fst (sendIndex_visit fails minLocalVer repo ignores st f) \<longrightarrow>
            \<not> sendErr (snd (sendIndex_visit fails minLocalVer repo ignores st f)))"
  using assms
  by (auto simp: sendIndex_visit_def Let_def sendInv_def connCall_def addToBatch_def
      split: list.splits if_splits)

lemma sendInv_iterate:
  "sendInv repo st \<Longrightarrow> \<not> sendErr st \<Longrightarrow>
     sendInv repo (iterate (sendIndex_visit fails minLocalVer repo ignores) xs st)"
proof (induction xs arbitrary: st)
  case Nil
  then show ?case by simp
next
  case (Cons x xs)
  obtain c st' where v: "sendIndex_visit fails minLocalVer repo ignores st x = (c, st')"
    by (cases "sendIndex_visit fails minLocalVer repo ignores st x")
  have i: "sendInv repo st'" "c \<longrightarrow> \<not> sendErr st'"
    using sendInv_visit [OF Cons.prems, of fails minLocalVer ignores x] v by simp_all
  show ?case
  proof (cases c)
    case True
    with i Cons.IH [of st'] v show ?thesis by simp
  next
    case False
    with i v show ?thesis by simp
  qed
qed

lemma sendInv_finish:
  assumes "sendInv repo st"
  shows "\<exists>b rest. sent (sendFinish fails repo st) = MsgIndex repo b # rest \<and>
                  list_all (isIndexUpdate repo) rest"
  using assms
  by (auto simp: sendFinish_def sendInv_def connCall_def split: list.splits if_splits)

lemma iterate_nothing_qualifies:
  assumes "list_all (\<lambda>f. LocalVersion f \<le> minLocalVer \<or> ignores (Name f)) xs"
  shows "\<exists>v. iterate (sendIndex_visit fails minLocalVer repo ignores) xs st = st\<lparr>maxLocalVer := v\<rparr>"
  using assms
proof (induction xs arbitrary: st)
  case Nil
  show ?case by (intro exI [of _ "maxLocalVer st"]) simp
next
  case (Cons x xs)
  from Cons.prems have q: "LocalVersion x \<le> minLocalVer \<or> ignores (Name x)"
    and r: "list_all (\<lambda>f. LocalVersion f \<le> minLocalVer \<or> ignores (Name f)) xs"
    by simp_all
  have "\<exists>v. sendIndex_visit fails minLocalVer repo ignores st x = (True, st\<lparr>maxLocalVer := v\<rparr>)"
  proof (cases "LocalVersion x \<le> minLocalVer")
    case True
    then show ?thesis
      by (intro exI [of _ "maxLocalVer st"]) (simp add: sendIndex_visit_def)
  next
    case False
    with q have "ignores (Name x)" by simp
    with False show ?thesis
      by (intro exI [of _ "if LocalVersion x > maxLocalVer st then LocalVersion x else maxLocalVer st"])
         (simp add: sendIndex_visit_def)
  qed
  then obtain v where v: "sendIndex_visit fails minLocalVer repo ignores st x = (True, st\<lparr>maxLocalVer := v\<rparr>)"
    by blast
  from Cons.IH [OF r, of "st\<lparr>maxLocalVer := v\<rparr>"] obtain v' where
    "iterate (sendIndex_visit fails minLocalVer repo ignores) xs (st\<lparr>maxLocalVer := v\<rparr>) = st\<lparr>maxLocalVer := v'\<rparr>"
    by auto
  with v show ?case by auto
qed

text \<open>
  C8. Called with initial set, sendIndexTo makes at least one call on the connection,
  whatever the connection, the repository, the local replica and the ignore patterns:
  the first call is an Index message and every later call of the run is an IndexUpdate
  message. When no entry of the local replica qualifies (each is at or below the
  watermark or ignored), the run consists of the Index message with an empty batch.
\<close>

theorem C8_sendIndexTo_initial:
  "(\<exists>b rest. snd (sendIndexTo fails True minLocalVer repo fs ignores) = MsgIndex repo b # rest \<and>
             list_all (isIndexUpdate repo) rest) \<and>
   (list_all (\<lambda>f. LocalVersion f \<le> minLocalVer \<or> ignores (Name f)) (haveList fs LocalNodeID) \<longrightarrow>
      snd (sendIndexTo fails True minLocalVer repo fs ignores) = [MsgIndex repo []])"
proof
  have "sendInv repo (sendStart True)"
    by (simp add: sendInv_def sendStart_def)
  then have "sendInv repo (iterate (sendIndex_visit fails minLocalVer repo ignores)
                             (haveList fs LocalNodeID) (sendStart True))"
    by (rule sendInv_iterate) (simp add: sendStart_def)
  from sendInv_finish [OF this]
  show "\<exists>b rest. snd (sendIndexTo fails True minLocalVer repo fs ignores) = MsgIndex repo b # rest \<and>
             list_all (isIndexUpdate repo) rest"
    by (simp add: sendIndexTo_def Let_def)
next
  show "list_all (\<lambda>f. LocalVersion f \<le> minLocalVer \<or> ignores (Name f)) (haveList fs LocalNodeID) \<longrightarrow>
      snd (sendIndexTo fails True minLocalVer repo fs ignores) = [MsgIndex repo []]"
  proof
    assume "list_all (\<lambda>f. LocalVersion f \<le> minLocalVer \<or> ignores (Name f)) (haveList fs LocalNodeID)"
    from iterate_nothing_qualifies [OF this, of fails repo "sendStart True"]
    obtain v where "iterate (sendIndex_visit fails minLocalVer repo ignores)
                             (haveList fs LocalNodeID) (sendStart True) = (sendStart True)\<lparr>maxLocalVer := v\<rparr>"
      by auto
    then show "snd (sendIndexTo fails True minLocalVer repo fs ignores) = [MsgIndex repo []]"
      by (simp add: sendIndexTo_def Let_def sendFinish_def sendStart_def connCall_def)
  qed
qed


theorem C8_sendIndexTo_initial_witness:
  "list_all (\<lambda>f. LocalVersion f \<le> 0 \<or> noPatterns (Name f)) (haveList (localOnly []) LocalNodeID) \<and>
   snd (sendIndexTo (\<lambda>k. False) True 0 ''photos'' (localOnly []) noPatterns) = [MsgIndex ''photos'' []] \<and>
   snd (sendIndexTo (\<lambda>k. False) True 0 ''photos''
          (localOnly [bigFile ''b'' 2, bigFile ''a'' 1, bigFile ''c'' 3]) noPatterns)
     = [MsgIndex ''photos'' [bigFile ''a'' 1],
        MsgIndexUpdate ''photos'' [bigFile ''b'' 2],
        MsgIndexUpdate ''photos'' [bigFile ''c'' 3]] \<and>
   snd (sendIndexTo (\<lambda>k. True) True 0 ''photos''
          (localOnly [bigFile ''b'' 2, bigFile ''a'' 1, bigFile ''c'' 3]) noPatterns)
     = [MsgIndex ''photos'' [bigFile ''a'' 1]]"
proof -
  have h: "list_all (\<lambda>f. LocalVersion f \<le> 0 \<or> noPatterns (Name f)) (haveList (localOnly []) LocalNodeID)"
    by (simp add: haveList_def localOnly_def)
  have a: "snd (sendIndexTo (\<lambda>k. False) True 0 ''photos'' (localOnly []) noPatterns) = [MsgIndex ''photos'' []]"
    using C8_sendIndexTo_initial [of "\<lambda>k. False" 0 "''photos''" "localOnly []" noPatterns] h
    by simp
  have s: "haveList (localOnly [bigFile ''b'' 2, bigFile ''a'' 1, bigFile ''c'' 3]) LocalNodeID
             = [bigFile ''a'' 1, bigFile ''b'' 2, bigFile ''c'' 3]"
    by (simp add: haveList_def localOnly_def bigFile_def less_eq_char_def)
  have lv: "LocalVersion (bigFile n v) = v" "Name (bigFile n v) = n"
    "length (Blocks (bigFile n v)) = 6400" for n v
    by (simp_all add: bigFile_def)
  have b: "snd (sendIndexTo (\<lambda>k. False) True 0 ''photos''
          (localOnly [bigFile ''b'' 2, bigFile ''a'' 1, bigFile ''c'' 3]) noPatterns)
     = [MsgIndex ''photos'' [bigFile ''a'' 1],
        MsgIndexUpdate ''photos'' [bigFile ''b'' 2],
        MsgIndexUpdate ''photos'' [bigFile ''c'' 3]]"
    unfolding sendIndexTo_def s
    by (simp add: sendIndex_visit_def sendStart_def sendFinish_def connCall_def addToBatch_def
        lv noPatterns_def indexBatchSize_def indexTargetSize_def indexPerFileSize_def
        IndexPerBlockSize_def Let_def)
  have c: "snd (sendIndexTo (\<lambda>k. True) True 0 ''photos''
          (localOnly [bigFile ''b'' 2, bigFile ''a'' 1, bigFile ''c'' 3]) noPatterns)
     = [MsgIndex ''photos'' [bigFile ''a'' 1]]"
    unfolding sendIndexTo_def s
    by (simp add: sendIndex_visit_def sendStart_def sendFinish_def connCall_def addToBatch_def
        lv noPatterns_def indexBatchSize_def indexTargetSize_def indexPerFileSize_def
        IndexPerBlockSize_def Let_def)
  from h a b c show ?thesis by simp
qed

subsection \<open>The sharing graph\<close>

lemma fold_nodeRepos:
  "set (case fold (\<lambda>node nr. nr(node \<mapsto> (case nr node of None \<Rightarrow> [] | Some rs \<Rightarrow> rs) @ [rid])) ns nr n of
          None \<Rightarrow> [] | Some rs \<Rightarrow> rs)
     = set (case nr n of None \<Rightarrow> [] | Some rs \<Rightarrow> rs) \<union> (if n \<in> set ns then {rid} else {})"
  by (induction ns arbitrary: nr) (auto split: option.splits)

lemma AddRepo_sharingInv:
  assumes "sharingInv m" and "repoCfgs m (ID rc) = None" and "AddRepo rc m = Some m'"
  shows "sharingInv m'"
proof -
  from assms(1,2) have none: "repoNodes m (ID rc) = None"
    by (simp add: sharingInv_def)
  then have "nodesOf m (ID rc) = []"
    by (simp add: nodesOf_def)
  moreover from assms(1) have "(n \<in> set (nodesOf m (ID rc))) = (ID rc \<in> set (reposOf m n))" for n
    by (simp add: sharingInv_def sharingSymmetric_def)
  ultimately have fresh: "ID rc \<notin> set (reposOf m n)" for n
    by simp
  from assms(3) have m': "m' = m\<lparr>repoCfgs := (repoCfgs m)(ID rc \<mapsto> rc),
                   repoFiles := (repoFiles m)(ID rc \<mapsto> NewSet),
                   repoNodes := (repoNodes m)(ID rc \<mapsto> Nodes rc),
                   nodeRepos :=
                     fold (\<lambda>node nr. nr(node \<mapsto> (case nr node of None \<Rightarrow> [] | Some rs \<Rightarrow> rs) @ [ID rc]))
                       (Nodes rc) (nodeRepos m),
                   addedRepo := True\<rparr>"
    by (simp add: AddRepo_def split: if_splits)
  have r: "set (reposOf m' n) = set (reposOf m n) \<union> (if n \<in> set (Nodes rc) then {ID rc} else {})" for n
    unfolding m' reposOf_def by (simp add: fold_nodeRepos)
  have n: "nodesOf m' r = (if r = ID rc then Nodes rc else nodesOf m r)" for r
    unfolding m' nodesOf_def by simp
  have "sharingSymmetric m'"
    unfolding sharingSymmetric_def
  proof (intro allI)
    fix r k
    show "(k \<in> set (nodesOf m' r)) = (r \<in> set (reposOf m' k))"
      using assms(1) fresh [of k]
      by (auto simp: r n sharingInv_def sharingSymmetric_def)
  qed
  moreover have "\<forall>r. repoCfgs m' r = None \<longrightarrow> repoNodes m' r = None"
    using assms(1) unfolding m' by (simp add: sharingInv_def)
  ultimately show ?thesis by (simp add: sharingInv_def)
qed

lemma introduceNode_sharingInv:
  assumes "sharingInv (fst st)" and "repoNodes (fst st) rid \<noteq> None"
    and "introduceNode rid node st = Some st'"
  shows "sharingInv (fst st')"
proof -
  obtain m changed where st: "st = (m, changed)" by (cases st)
  define m1 where "m1 = (if GetNodeConfiguration (cfg m) (pnID node) = None
                then m\<lparr>cfg := (cfg m)\<lparr>cfgNodes := cfgNodes (cfg m) @
                          [\<lparr>ncNodeID = pnID node, ncName = [],
                            ncIntroducer = (pnFlags node AND FlagIntroducer \<noteq> 0)\<rparr>]\<rparr>\<rparr>
                else m)"
  have same: "repoNodes m1 = repoNodes m" "nodeRepos m1 = nodeRepos m" "repoCfgs m1 = repoCfgs m"
    by (simp_all add: m1_def)
  then have inv1: "sharingInv m1"
    using assms(1) st by (simp add: sharingInv_def sharingSymmetric_def nodesOf_def reposOf_def)
  show ?thesis
  proof (cases "list_ex (\<lambda>er. er = rid) (reposOf m1 (pnID node))")
    case True
    then have "fst st' = m1"
      using assms(3) st by (auto simp: introduceNode_def m1_def Let_def split: if_splits)
    with inv1 show ?thesis by simp
  next
    case False
    define m2 where "m2 = m1\<lparr>nodeRepos := (nodeRepos m1)(pnID node \<mapsto> reposOf m1 (pnID node) @ [rid]),
                               repoNodes := (repoNodes m1)(rid \<mapsto> nodesOf m1 rid @ [pnID node])\<rparr>"
    from False assms(3) st have "\<exists>c. fst st' = m2\<lparr>cfg := c\<rparr>"
      by (auto simp: introduceNode_def m1_def m2_def Let_def split: if_splits option.splits)
    then obtain c where st': "fst st' = m2\<lparr>cfg := c\<rparr>" by blast
    have r: "set (reposOf m2 k) = set (reposOf m1 k) \<union> (if k = pnID node then {rid} else {})" for k
      by (cases "nodeRepos m1 (pnID node)") (auto simp: m2_def reposOf_def)
    have n: "set (nodesOf m2 r) = set (nodesOf m1 r) \<union> (if r = rid then {pnID node} else {})" for r
      by (cases "repoNodes m1 rid") (auto simp: m2_def nodesOf_def)
    have "sharingSymmetric m2"
      unfolding sharingSymmetric_def
    proof (intro allI)
      fix r k
      show "(k \<in> set (nodesOf m2 r)) = (r \<in> set (reposOf m2 k))"
        using inv1 by (auto simp: r n sharingInv_def sharingSymmetric_def)
    qed
    moreover have "\<forall>r. repoCfgs m2 r = None \<longrightarrow> repoNodes m2 r = None"
      using inv1 assms(2) st same by (auto simp: m2_def sharingInv_def)
    ultimately have "sharingInv m2" by (simp add: sharingInv_def)
    then show ?thesis
      unfolding st' by (simp add: sharingInv_def sharingSymmetric_def nodesOf_def reposOf_def)
  qed
qed

lemma introduceNode_repoNodes:
  assumes "introduceNode rid node st = Some st'" and "repoNodes (fst st) r \<noteq> None"
  shows "repoNodes (fst st') r \<noteq> None"
  using assms
  by (cases st) (auto simp: introduceNode_def Let_def split: if_splits option.splits)

lemma introduceNodes_sharingInv:
  "sharingInv (fst st) \<Longrightarrow> repoNodes (fst st) rid \<noteq> None \<Longrightarrow>
     introduceNodes rid nodes st = Some st' \<Longrightarrow> sharingInv (fst st')"
proof (induction nodes arbitrary: st)
  case Nil
  then show ?case by simp
next
  case (Cons node nodes)
  from Cons.prems(3) obtain st1 where
    s1: "introduceNode rid node st = Some st1" and s2: "introduceNodes rid nodes st1 = Some st'"
    by (auto split: option.splits)
  from introduceNode_sharingInv [OF Cons.prems(1,2) s1] have i: "sharingInv (fst st1)" .
  from introduceNode_repoNodes [OF s1 Cons.prems(2)] have k: "repoNodes (fst st1) rid \<noteq> None" .
  from Cons.IH [OF i k s2] show ?case .
qed

lemma introduceRepos_sharingInv:
  "sharingInv (fst st) \<Longrightarrow> introduceRepos repos st = Some st' \<Longrightarrow> sharingInv (fst st')"
proof (induction repos arbitrary: st)
  case Nil
  then show ?case by simp
next
  case (Cons repo repos)
  show ?case
  proof (cases "repoNodes (fst st) (prID repo) = None")
    case True
    with Cons show ?thesis by simp
  next
    case False
    with Cons.prems(2) obtain st1 where
      s1: "introduceNodes (prID repo) (prNodes repo) st = Some st1"
      and s2: "introduceRepos repos st1 = Some st'"
      by (auto split: option.splits)
    from introduceNodes_sharingInv [OF Cons.prems(1) False s1] have "sharingInv (fst st1)" .
    from Cons.IH [OF this s2] show ?thesis .
  qed
qed

lemma sharingInv_cong:
  "repoNodes m' = repoNodes m \<Longrightarrow> nodeRepos m' = nodeRepos m \<Longrightarrow> repoCfgs m' = repoCfgs m \<Longrightarrow>
     sharingInv m \<Longrightarrow> sharingInv m'"
  by (simp add: sharingInv_def sharingSymmetric_def nodesOf_def reposOf_def)

lemma ClusterConfig_sharingInv:
  assumes "sharingInv m" and "ClusterConfig n cm m = Some m'"
  shows "sharingInv m'"
proof -
  define m1 where "m1 = m\<lparr>nodeVer := (nodeVer m)(n \<mapsto>
                  (if ClientName cm = ''syncthing'' then ClientVersion cm
                   else ClientName cm @ '' '' @ ClientVersion cm))\<rparr>"
  define m2 where "m2 = (if GetOption cm ''name'' \<noteq> [] then
                  (case GetNodeConfiguration (cfg m1) n of
                     Some node \<Rightarrow>
                       if ncName node = []
                       then m1\<lparr>cfg := Save ((cfg m1)\<lparr>cfgNodes :=
                              setNodeName n (GetOption cm ''name'') (cfgNodes (cfg m1))\<rparr>)\<rparr>
                       else m1
                   | None \<Rightarrow> m1)
                else m1)"
  have cc: "ClusterConfig n cm m =
     (case GetNodeConfiguration (cfg m2) n of
            None \<Rightarrow> None
          | Some nc \<Rightarrow>
              if ncIntroducer nc then
                (case introduceRepos (Repositories cm) (m2, False) of
                   None \<Rightarrow> None
                 | Some (m3, changed) \<Rightarrow> Some (if changed then m3\<lparr>cfg := Save (cfg m3)\<rparr> else m3))
              else Some m2)"
    unfolding ClusterConfig_def Let_def m2_def m1_def ..
  have "repoNodes m2 = repoNodes m" "nodeRepos m2 = nodeRepos m" "repoCfgs m2 = repoCfgs m"
    by (simp_all add: m2_def m1_def split: option.split)
  then have i2: "sharingInv m2" using assms(1) by (rule sharingInv_cong)
  from assms(2) have "m' = m2 \<or>
     (\<exists>m3 ch. introduceRepos (Repositories cm) (m2, False) = Some (m3, ch) \<and>
        (m' = m3 \<or> m' = m3\<lparr>cfg := Save (cfg m3)\<rparr>))"
    unfolding cc by (auto split: option.splits if_splits)
  then show ?thesis
  proof
    assume "m' = m2" with i2 show ?thesis by simp
  next
    assume "\<exists>m3 ch. introduceRepos (Repositories cm) (m2, False) = Some (m3, ch) \<and>
        (m' = m3 \<or> m' = m3\<lparr>cfg := Save (cfg m3)\<rparr>)"
    then obtain m3 ch where a: "introduceRepos (Repositories cm) (m2, False) = Some (m3, ch)"
      and b: "m' = m3 \<or> m' = m3\<lparr>cfg := Save (cfg m3)\<rparr>" by blast
    from introduceRepos_sharingInv [of "(m2, False)", OF _ a] i2 have "sharingInv m3" by simp
    with b show ?thesis
      by (auto intro: sharingInv_cong [of _ m3])
  qed
qed


lemma Close_sharing:
  assumes "Close n e w = Some w'"
  shows "repoNodes (model w') = repoNodes (model w) \<and> nodeRepos (model w') = nodeRepos (model w) \<and>
         repoCfgs (model w') = repoCfgs (model w)"
  using assms by (auto simp: Close_def Let_def logEvent_def split: option.splits)

lemma Index_sharing:
  assumes "Index n r fs w = Some w'"
  shows "repoNodes (model w') = repoNodes (model w) \<and> nodeRepos (model w') = nodeRepos (model w) \<and>
         repoCfgs (model w') = repoCfgs (model w)"
  using assms by (auto simp: Index_def Let_def logEvent_def split: option.splits if_splits prod.splits)

lemma IndexUpdate_sharing:
  assumes "IndexUpdate n r fs w = Some w'"
  shows "repoNodes (model w') = repoNodes (model w) \<and> nodeRepos (model w') = nodeRepos (model w) \<and>
         repoCfgs (model w') = repoCfgs (model w)"
  using assms by (auto simp: IndexUpdate_def Let_def logEvent_def split: option.splits if_splits prod.splits)

lemma setState_sharing:
  "repoNodes (model (setState now since r s w)) = repoNodes (model w) \<and>
   nodeRepos (model (setState now since r s w)) = nodeRepos (model w) \<and>
   repoCfgs (model (setState now since r s w)) = repoCfgs (model w)"
  by (simp add: setState_def Let_def logEvent_def)

lemma ScanRepoSub_sharing:
  assumes "ScanRepoSub sz env r sub w = (e, w')"
  shows "repoNodes (model w') = repoNodes (model w) \<and> nodeRepos (model w') = nodeRepos (model w) \<and>
         repoCfgs (model w') = repoCfgs (model w)"
  using assms
  by (auto simp: ScanRepoSub_def Let_def setState_sharing
      split: if_splits option.splits prod.splits)

lemma reachable_sharingInv: "reachable w \<Longrightarrow> sharingInv (model w)"
proof (induction rule: reachable.induct)
  case (reach_new c)
  show ?case
    by (simp add: sharingInv_def sharingSymmetric_def newWorld_def NewModel_def nodesOf_def reposOf_def)
next
  case (reach_AddRepo w rc m')
  then show ?case by (simp add: AddRepo_sharingInv)
next
  case (reach_ClusterConfig w n cm m')
  then show ?case by (simp add: ClusterConfig_sharingInv)
next
  case (reach_Close w n e w')
  from Close_sharing [OF reach_Close.hyps(2)] reach_Close.IH show ?case
    by (blast intro: sharingInv_cong)
next
  case (reach_Index w n r fs w')
  from Index_sharing [OF reach_Index.hyps(2)] reach_Index.IH show ?case
    by (blast intro: sharingInv_cong)
next
  case (reach_IndexUpdate w n r fs w')
  from IndexUpdate_sharing [OF reach_IndexUpdate.hyps(2)] reach_IndexUpdate.IH show ?case
    by (blast intro: sharingInv_cong)
next
  case (reach_setState w now since r s)
  from setState_sharing [of now since r s w] reach_setState.IH show ?case
    by (blast intro: sharingInv_cong)
next
  case (reach_ScanRepoSub w sz env r sub e w')
  from ScanRepoSub_sharing [OF reach_ScanRepoSub.hyps(2)] reach_ScanRepoSub.IH show ?case
    by (blast intro: sharingInv_cong)
qed

text \<open>
  C3 (counterexample). The claim holds the symmetry in every state reached by any
  sequence of operations. AddRepo overwrites repoNodes of the id and only appends to
  nodeRepos: adding the repository photos with node 7 and then again with no node leaves
  photos in nodeRepos[7] while 7 is not in repoNodes[photos].
\<close>

theorem C3_AddRepo_twice_counterexample:
  "AddRepo (photosCfg [7]) (NewModel emptyConfiguration) = Some addedOnce \<and>
   AddRepo (photosCfg []) addedOnce = Some addedTwice \<and>
   7 \<notin> set (nodesOf addedTwice ''photos'') \<and>
   ''photos'' \<in> set (reposOf addedTwice 7)"
  by (simp add: AddRepo_def addedOnce_def addedTwice_def photosCfg_def NewModel_def
      nodesOf_def reposOf_def)

text \<open>
  C3 (amended). In every state reached from NewModel by AddRepo, ClusterConfig, Close,
  Index, IndexUpdate, setState and ScanRepoSub, where every AddRepo adds a repository id
  that was not added before: for every repository r and node n, n is in repoNodes[r] exactly when r
  is in nodeRepos[n].
\<close>

theorem C3_sharing_symmetric:
  "reachable w \<Longrightarrow> (n \<in> set (nodesOf (model w) r)) = (r \<in> set (reposOf (model w) n))"
  using reachable_sharingInv [of w] by (simp add: sharingInv_def sharingSymmetric_def)

theorem C3_sharing_symmetric_witness:
  "reachable introduced \<and>
   9 \<in> set (nodesOf (model introduced) ''photos'') \<and>
   ''photos'' \<in> set (reposOf (model introduced) 9)"
proof -
  obtain m1 where a: "AddRepo (photosCfg [7]) (NewModel introducerCfg) = Some m1"
    by (simp add: AddRepo_def NewModel_def photosCfg_def)
  have m1: "m1 = (NewModel introducerCfg)
     \<lparr>repoCfgs := [''photos'' \<mapsto> photosCfg [7]], repoFiles := [''photos'' \<mapsto> NewSet],
      repoNodes := [''photos'' \<mapsto> [7]], nodeRepos := [7 \<mapsto> [''photos'']], addedRepo := True\<rparr>"
    using a by (simp add: AddRepo_def NewModel_def photosCfg_def)
  have "\<exists>m2. ClusterConfig 7 announce m1 = Some m2 \<and> nodesOf m2 ''photos'' = [7, 9]"
    unfolding m1
    by (simp add: ClusterConfig_def announce_def introducerCfg_def NewModel_def GetOption_def
        GetNodeConfiguration_def GetRepoConfiguration_def introduceNode_def Let_def nodesOf_def
        reposOf_def photosCfg_def Save_def FlagIntroducer_def)
  then obtain m2 where b: "ClusterConfig 7 announce m1 = Some m2"
    and n: "nodesOf m2 ''photos'' = [7, 9]" by blast
  have i: "introduced = (newWorld introducerCfg)\<lparr>model := m2\<rparr>"
    by (simp add: introduced_def a b)
  have r0: "reachable (newWorld introducerCfg)" by (rule reach_new)
  have "repoCfgs (model (newWorld introducerCfg)) (ID (photosCfg [7])) = None"
    by (simp add: newWorld_def NewModel_def)
  from reach_AddRepo [OF r0 this, of m1] a
  have r1: "reachable ((newWorld introducerCfg)\<lparr>model := m1\<rparr>)"
    by (simp add: newWorld_def)
  from reach_ClusterConfig [OF r1, of 7 announce m2] b
  have r2: "reachable introduced" by (simp add: i)
  have n': "9 \<in> set (nodesOf (model introduced) ''photos'')"
    by (simp add: i n)
  with C3_sharing_symmetric [OF r2, of 9 "''photos''"]
  have "''photos'' \<in> set (reposOf (model introduced) 9)" by simp
  with r2 n' show ?thesis by simp
qed

subsection \<open>The second pass of ScanRepoSub\<close>

text \<open>
  In the lexicographic order the names with a given prefix lie together: what lies
  between two of them has the prefix too. This is what lets the visitor stop at the
  first name without the prefix once it has seen one with it.
\<close>

lemma prefix_between:
  fixes s p x y :: string
  shows "prefix s p \<Longrightarrow> prefix s y \<Longrightarrow> p \<le> x \<Longrightarrow> x \<le> y \<Longrightarrow> prefix s x"
proof (induction s arbitrary: p x y)
  case Nil
  then show ?case by simp
next
  case (Cons c s)
  from Cons.prems(1) obtain p' where p: "p = c # p'" "prefix s p'"
    by (cases p) auto
  from Cons.prems(2) obtain y' where y: "y = c # y'" "prefix s y'"
    by (cases y) auto
  from Cons.prems(3) p obtain d x' where x: "x = d # x'"
    by (cases x) auto
  from Cons.prems(3,4) p y x have "d = c" "p' \<le> x'" "x' \<le> y'"
    by (auto simp: Cons_le_Cons)
  with Cons.IH [OF p(2) y(2)] x show ?case by simp
qed

lemma find_filter_append:
  assumes "\<And>e. P e \<Longrightarrow> Q e" and "\<not> P z"
  shows "find P (filter Q es @ [z]) = find P es"
  using assms by (induction es) auto

lemma find_upsert_other:
  "N \<noteq> Name nf \<Longrightarrow>
     find (\<lambda>e. Name e = N) (entries (upsert nf r)) = find (\<lambda>e. Name e = N) (entries r)"
  by (simp add: upsert_def find_filter_append)

lemma find_none_append:
  assumes "\<And>e. e \<in> set es \<Longrightarrow> \<not> P e" and "P z"
  shows "find P (es @ [z]) = Some z"
  using assms by (induction es) auto

lemma find_upsert_same:
  "find (\<lambda>e. Name e = Name nf) (entries (upsert nf r)) = Some (nf\<lparr>LocalVersion := watermark r + 1\<rparr>)"
proof -
  have "find (\<lambda>e. Name e = Name nf)
          (filter (\<lambda>e. Name e \<noteq> Name nf) (entries r) @ [nf\<lparr>LocalVersion := watermark r + 1\<rparr>])
        = Some (nf\<lparr>LocalVersion := watermark r + 1\<rparr>)"
    by (rule find_none_append) simp_all
  then show ?thesis by (simp add: upsert_def)
qed

lemma pendingReplica_flush [simp]: "pendingReplica (scanFlush st) = pendingReplica st"
  by (simp add: pendingReplica_def scanFlush_def Update_def setReplica_def)

lemma scanFlush_fields [simp]:
  "seenPrefix (scanFlush st) = seenPrefix st" "scanClock (scanFlush st) = scanClock st"
  by (simp_all add: scanFlush_def)

lemma scan_visit_outside:
  "\<not> prefix sub (Name x) \<Longrightarrow>
     scan_visit sz repo sub dir ignores notExist st x = (\<not> seenPrefix st, st)"
  by (simp add: scan_visit_def)

lemma scan_visit_vanished:
  assumes "vanished sub dir ignores notExist x"
  shows "fst (scan_visit sz repo sub dir ignores notExist st x) \<and>
         seenPrefix (snd (scan_visit sz repo sub dir ignores notExist st x)) \<and>
         scanClock (snd (scan_visit sz repo sub dir ignores notExist st x)) = Tick (scanClock st) (Version x) \<and>
         pendingReplica (snd (scan_visit sz repo sub dir ignores notExist st x)) =
           upsert \<lparr>Name = Name x, Flags = Flags x OR FlagDeleted, Modified = Modified x,
                   Version = Tick (scanClock st) (Version x), LocalVersion = 0, Blocks = []\<rparr>
             (pendingReplica st)"
proof -
  have "pendingReplica (st\<lparr>seenPrefix := True\<rparr>) = pendingReplica st"
    by (simp add: pendingReplica_def)
  then have "pendingReplica (scanFlush (st\<lparr>seenPrefix := True\<rparr>)) = pendingReplica st"
    by (simp only: pendingReplica_flush)
  moreover have "pendingReplica (s\<lparr>scanClock := k, scanEvents := ev, scanBatch := scanBatch s @ [nf]\<rparr>)
                   = upsert nf (pendingReplica s)" for s k ev nf
    by (simp add: pendingReplica_def)
  ultimately show ?thesis
    using assms by (simp add: scan_visit_def vanished_def Let_def)
qed

lemma scan_visit_inside:
  assumes "prefix sub (Name x)"
  shows "fst (scan_visit sz repo sub dir ignores notExist st x) \<and>
         seenPrefix (snd (scan_visit sz repo sub dir ignores notExist st x)) \<and>
         (\<not> vanished sub dir ignores notExist x \<longrightarrow>
            scanClock (snd (scan_visit sz repo sub dir ignores notExist st x)) = scanClock st) \<and>
         (\<forall>N. N \<noteq> Name x \<longrightarrow>
            find (\<lambda>e. Name e = N) (entries (pendingReplica (snd (scan_visit sz repo sub dir ignores notExist st x))))
              = find (\<lambda>e. Name e = N) (entries (pendingReplica st)))"
proof -
  have b: "pendingReplica (st\<lparr>seenPrefix := True\<rparr>) = pendingReplica st"
    by (simp add: pendingReplica_def)
  then have a: "pendingReplica (scanFlush (st\<lparr>seenPrefix := True\<rparr>)) = pendingReplica st"
    by (simp only: pendingReplica_flush)
  have c: "pendingReplica (s\<lparr>scanClock := k, scanEvents := ev, scanBatch := scanBatch s @ [nf]\<rparr>)
                   = upsert nf (pendingReplica s)" for s k ev nf
    by (simp add: pendingReplica_def)
  have d: "pendingReplica (s\<lparr>scanEvents := ev, scanBatch := scanBatch s @ [nf]\<rparr>)
                   = upsert nf (pendingReplica s)" for s ev nf
    by (simp add: pendingReplica_def)
  show ?thesis
    using assms
    by (simp add: scan_visit_def vanished_def Let_def a b c d find_upsert_other)
qed


lemma clockAt_Cons:
  "Name x \<noteq> Name f \<Longrightarrow>
     clockAt sub dir ignores notExist c (x # xs) f =
       clockAt sub dir ignores notExist
         (if vanished sub dir ignores notExist x then Tick c (Version x) else c) xs f"
  by (simp add: clockAt_def)

lemma clockAt_head: "clockAt sub dir ignores notExist c (x # xs) x = c"
  by (simp add: clockAt_def)

lemma markedDeleted_cong:
  "find (\<lambda>e. Name e = Name f) (entries r1) = find (\<lambda>e. Name e = Name f) (entries r2) \<Longrightarrow>
     markedDeleted r1 f c = markedDeleted r2 f c"
  by (simp add: markedDeleted_def)

lemma markedDeleted_upsert:
  "markedDeleted
     (upsert \<lparr>Name = Name x, Flags = Flags x OR FlagDeleted, Modified = Modified x,
              Version = Tick c (Version x), LocalVersion = 0, Blocks = []\<rparr> r) x c"
proof -
  let ?nf = "\<lparr>Name = Name x, Flags = Flags x OR FlagDeleted, Modified = Modified x,
              Version = Tick c (Version x), LocalVersion = 0, Blocks = []\<rparr>"
  have "find (\<lambda>e. Name e = Name ?nf) (entries (upsert ?nf r)) = Some (?nf\<lparr>LocalVersion := watermark r + 1\<rparr>)"
    by (rule find_upsert_same)
  then show ?thesis by (simp add: markedDeleted_def)
qed

lemma second_pass_walk:
  assumes "sorted (map Name rest)" and "distinct (map Name rest)"
    and "seenPrefix st \<longrightarrow> (\<exists>p. prefix sub p \<and> (\<forall>y\<in>set rest. p < Name y))"
  shows "(\<forall>f\<in>set rest. vanished sub dir ignores notExist f \<longrightarrow>
            markedDeleted (pendingReplica (iterate (scan_visit sz repo sub dir ignores notExist) rest st)) f
              (clockAt sub dir ignores notExist (scanClock st) rest f)) \<and>
         (\<forall>N. N \<notin> Name ` set rest \<longrightarrow>
            find (\<lambda>e. Name e = N)
              (entries (pendingReplica (iterate (scan_visit sz repo sub dir ignores notExist) rest st)))
            = find (\<lambda>e. Name e = N) (entries (pendingReplica st)))"
  using assms
proof (induction rest arbitrary: st)
  case Nil
  then show ?case by simp
next
  case (Cons x rest)
  let ?V = "scan_visit sz repo sub dir ignores notExist"
  let ?van = "vanished sub dir ignores notExist"
  from Cons.prems(1) have le: "\<forall>y\<in>set rest. Name x \<le> Name y" and so: "sorted (map Name rest)"
    by simp_all
  from Cons.prems(2) have nx: "Name x \<notin> Name ` set rest" and di: "distinct (map Name rest)"
    by simp_all
  show ?case
  proof (cases "prefix sub (Name x)")
    case False
    have v: "?V st x = (\<not> seenPrefix st, st)"
      using False by (rule scan_visit_outside)
    have nvx: "\<not> ?van x" using False by (simp add: vanished_def)
    show ?thesis
    proof (cases "seenPrefix st")
      case True
      with Cons.prems(3) obtain p where p: "prefix sub p" "p < Name x" "\<forall>y\<in>set rest. p < Name y"
        by auto
      have "\<not> prefix sub (Name y)" if "y \<in> set rest" for y
      proof
        assume "prefix sub (Name y)"
        from prefix_between [OF p(1) this, of "Name x"] p(2) le that have "prefix sub (Name x)"
          by simp
        with False show False ..
      qed
      then have none: "\<forall>f\<in>set (x # rest). \<not> ?van f"
        using False by (auto simp: vanished_def)
      have it: "iterate ?V (x # rest) st = st"
        using v True by simp
      from none show ?thesis unfolding it by simp
    next
      case nseen: False
      have it: "iterate ?V (x # rest) st = iterate ?V rest st"
        using v nseen by simp
      from nseen have "seenPrefix st \<longrightarrow> (\<exists>p. prefix sub p \<and> (\<forall>y\<in>set rest. p < Name y))"
        by simp
      from Cons.IH [OF so di this]
      have ih1: "\<forall>f\<in>set rest. ?van f \<longrightarrow>
            markedDeleted (pendingReplica (iterate ?V rest st)) f
              (clockAt sub dir ignores notExist (scanClock st) rest f)"
        and ih2: "\<forall>N. N \<notin> Name ` set rest \<longrightarrow>
            find (\<lambda>e. Name e = N) (entries (pendingReplica (iterate ?V rest st)))
            = find (\<lambda>e. Name e = N) (entries (pendingReplica st))"
        by simp_all
      have A: "markedDeleted (pendingReplica (iterate ?V (x # rest) st)) f
              (clockAt sub dir ignores notExist (scanClock st) (x # rest) f)"
        if "f \<in> set (x # rest)" "?van f" for f
      proof -
        from that nvx have fr: "f \<in> set rest" by auto
        with nx have "Name x \<noteq> Name f" by auto
        then have "clockAt sub dir ignores notExist (scanClock st) (x # rest) f
                     = clockAt sub dir ignores notExist (scanClock st) rest f"
          using nvx by (simp add: clockAt_Cons)
        with ih1 fr that(2) show ?thesis unfolding it by simp
      qed
      have B: "find (\<lambda>e. Name e = N) (entries (pendingReplica (iterate ?V (x # rest) st)))
            = find (\<lambda>e. Name e = N) (entries (pendingReplica st))"
        if "N \<notin> Name ` set (x # rest)" for N
        using that ih2 unfolding it by simp
      show ?thesis
      proof (intro conjI ballI allI impI)
        fix f assume "f \<in> set (x # rest)" "?van f"
        then show "markedDeleted (pendingReplica (iterate ?V (x # rest) st)) f
              (clockAt sub dir ignores notExist (scanClock st) (x # rest) f)" by (rule A)
      next
        fix N assume "N \<notin> Name ` set (x # rest)"
        then show "find (\<lambda>e. Name e = N) (entries (pendingReplica (iterate ?V (x # rest) st)))
            = find (\<lambda>e. Name e = N) (entries (pendingReplica st))" by (rule B)
      qed
    qed
  next
    case True
    obtain st1 where v: "?V st x = (True, st1)"
      using scan_visit_inside [OF True, of sz repo dir ignores notExist st]
      by (cases "?V st x") simp
    from scan_visit_inside [OF True, of sz repo dir ignores notExist st] v
    have seen1: "seenPrefix st1"
      and clk: "\<not> ?van x \<longrightarrow> scanClock st1 = scanClock st"
      and fr1: "\<forall>N. N \<noteq> Name x \<longrightarrow>
            find (\<lambda>e. Name e = N) (entries (pendingReplica st1))
              = find (\<lambda>e. Name e = N) (entries (pendingReplica st))"
      by simp_all
    have it: "iterate ?V (x # rest) st = iterate ?V rest st1"
      using v by simp
    have "\<forall>y\<in>set rest. Name x < Name y"
      using le nx by (auto simp: less_le)
    with True have "seenPrefix st1 \<longrightarrow> (\<exists>p. prefix sub p \<and> (\<forall>y\<in>set rest. p < Name y))"
      by blast
    from Cons.IH [OF so di this]
    have ih1: "\<forall>f\<in>set rest. ?van f \<longrightarrow>
            markedDeleted (pendingReplica (iterate ?V rest st1)) f
              (clockAt sub dir ignores notExist (scanClock st1) rest f)"
      and ih2: "\<forall>N. N \<notin> Name ` set rest \<longrightarrow>
            find (\<lambda>e. Name e = N) (entries (pendingReplica (iterate ?V rest st1)))
            = find (\<lambda>e. Name e = N) (entries (pendingReplica st1))"
      by simp_all
    have clk1: "scanClock st1 = (if ?van x then Tick (scanClock st) (Version x) else scanClock st)"
      using clk scan_visit_vanished [of sub dir ignores notExist x sz repo st] v by auto
    have A: "markedDeleted (pendingReplica (iterate ?V (x # rest) st)) f
              (clockAt sub dir ignores notExist (scanClock st) (x # rest) f)"
      if "f \<in> set (x # rest)" "?van f" for f
    proof (cases "f \<in> set rest")
      case True
      with nx have "Name x \<noteq> Name f" by auto
      then have "clockAt sub dir ignores notExist (scanClock st) (x # rest) f
                     = clockAt sub dir ignores notExist (scanClock st1) rest f"
        by (simp add: clockAt_Cons clk1)
      with ih1 True that(2) show ?thesis unfolding it by simp
    next
      case False
      with that have fx: "f = x" by simp
      from scan_visit_vanished [of sub dir ignores notExist x sz repo st] that(2) fx v
      have "pendingReplica st1 =
           upsert \<lparr>Name = Name x, Flags = Flags x OR FlagDeleted, Modified = Modified x,
                   Version = Tick (scanClock st) (Version x), LocalVersion = 0, Blocks = []\<rparr>
             (pendingReplica st)"
        by simp
      then have "markedDeleted (pendingReplica st1) x (scanClock st)"
        by (simp add: markedDeleted_upsert)
      then have md: "markedDeleted (pendingReplica st1) x (scanClock st)" .
      have "find (\<lambda>e. Name e = Name x) (entries (pendingReplica (iterate ?V rest st1)))
            = find (\<lambda>e. Name e = Name x) (entries (pendingReplica st1))"
        using ih2 nx by simp
      from markedDeleted_cong [OF this, of "scanClock st"] md
      have "markedDeleted (pendingReplica (iterate ?V rest st1)) x (scanClock st)"
        by simp
      then show ?thesis unfolding it fx by (simp add: clockAt_head)
    qed
    have B: "find (\<lambda>e. Name e = N) (entries (pendingReplica (iterate ?V (x # rest) st)))
            = find (\<lambda>e. Name e = N) (entries (pendingReplica st))"
      if "N \<notin> Name ` set (x # rest)" for N
      using that ih2 fr1 unfolding it by simp
    show ?thesis
    proof (intro conjI ballI allI impI)
      fix f assume "f \<in> set (x # rest)" "?van f"
      then show "markedDeleted (pendingReplica (iterate ?V (x # rest) st)) f
            (clockAt sub dir ignores notExist (scanClock st) (x # rest) f)" by (rule A)
    next
      fix N assume "N \<notin> Name ` set (x # rest)"
      then show "find (\<lambda>e. Name e = N) (entries (pendingReplica (iterate ?V (x # rest) st)))
          = find (\<lambda>e. Name e = N) (entries (pendingReplica st))" by (rule B)
    qed
  qed
qed

lemma secondPass_replica:
  "replicaOf (fst (secondPass sz repo sub dir ignores notExist (fs, clock, ev))) LocalNodeID =
     pendingReplica (iterate (scan_visit sz repo sub dir ignores notExist) (haveList fs LocalNodeID)
                    \<lparr>seenPrefix = False, scanBatch = [], scanSet = fs, scanClock = clock,
                     scanEvents = ev\<rparr>)"
  by (simp add: secondPass_def Let_def pendingReplica_def Update_def setReplica_def)

lemma haveList_sorted: "sorted (map Name (haveList fs n))"
  by (simp add: haveList_def)

lemma haveList_distinct:
  "distinct (map Name (entries (replicaOf fs n))) \<Longrightarrow> distinct (map Name (haveList fs n))"
proof -
  assume d: "distinct (map Name (entries (replicaOf fs n)))"
  have "mset (map Name (haveList fs n)) = mset (map Name (entries (replicaOf fs n)))"
    by (simp add: haveList_def)
  from mset_eq_imp_distinct_iff [OF this] d show ?thesis by simp
qed

text \<open>
  The second pass on its own, from any index set and clock: every entry of the local
  replica (names unique) that the pass must mark stands marked in the index set the pass
  returns.
\<close>

lemma secondPass_marks_deleted:
  assumes "distinct (map Name (entries (replicaOf fs LocalNodeID)))"
    and "f \<in> set (entries (replicaOf fs LocalNodeID))"
    and "prefix sub (Name f)"
    and "\<not> IsDeleted (Flags f)" and "\<not> IsInvalid (Flags f)"
    and "\<not> ignores (Name f)"
    and "notExist (pathJoin dir (Name f))"
  shows "Name (Get (fst (secondPass sz repo sub dir ignores notExist (fs, clock, ev))) LocalNodeID (Name f)) = Name f \<and>
         Flags (Get (fst (secondPass sz repo sub dir ignores notExist (fs, clock, ev))) LocalNodeID (Name f))
           = Flags f OR FlagDeleted \<and>
         Modified (Get (fst (secondPass sz repo sub dir ignores notExist (fs, clock, ev))) LocalNodeID (Name f))
           = Modified f \<and>
         Version (Get (fst (secondPass sz repo sub dir ignores notExist (fs, clock, ev))) LocalNodeID (Name f))
           = Tick (clockAt sub dir ignores notExist clock (haveList fs LocalNodeID) f) (Version f)"
proof -
  let ?st0 = "\<lparr>seenPrefix = False, scanBatch = [], scanSet = fs, scanClock = clock, scanEvents = ev\<rparr>"
  let ?xs = "haveList fs LocalNodeID"
  have van: "vanished sub dir ignores notExist f"
    using assms(3-7) by (simp add: vanished_def)
  have mem: "f \<in> set ?xs"
    using assms(2) by (simp add: haveList_def)
  have "seenPrefix ?st0 \<longrightarrow> (\<exists>p. prefix sub p \<and> (\<forall>y\<in>set ?xs. p < Name y))"
    by simp
  from second_pass_walk [OF haveList_sorted haveList_distinct [OF assms(1)] this, of dir ignores notExist sz repo]
    mem van
  have "markedDeleted (pendingReplica (iterate (scan_visit sz repo sub dir ignores notExist) ?xs ?st0)) f
          (clockAt sub dir ignores notExist clock ?xs f)"
    by simp
  then have md: "markedDeleted (replicaOf (fst (secondPass sz repo sub dir ignores notExist (fs, clock, ev))) LocalNodeID) f
          (clockAt sub dir ignores notExist clock ?xs f)"
    by (simp only: secondPass_replica)
  then obtain e where e: "find (\<lambda>e. Name e = Name f)
        (entries (replicaOf (fst (secondPass sz repo sub dir ignores notExist (fs, clock, ev))) LocalNodeID)) = Some e"
    and p: "Flags e = Flags f OR FlagDeleted" "Modified e = Modified f"
      "Version e = Tick (clockAt sub dir ignores notExist clock ?xs f) (Version f)"
    by (auto simp: markedDeleted_def split: option.splits)
  from e have "Name e = Name f" by (auto simp: find_Some_iff)
  with e p show ?thesis by (simp add: Get_def)
qed

text \<open>
  The first pass keeps the names of the local replica unique, and the index set it leaves
  does not depend on the event log it appends to.
\<close>

lemma upsert_distinct:
  assumes "distinct (map Name (entries r))"
  shows "distinct (map Name (entries (upsert f r)))"
proof -
  have "distinct (map Name (filter (\<lambda>e. Name e \<noteq> Name f) (entries r)))"
    using assms by (rule distinct_map_filter)
  then show ?thesis by (auto simp: upsert_def)
qed

lemma fold_upsert_distinct:
  "distinct (map Name (entries r)) \<Longrightarrow> distinct (map Name (entries (fold upsert b r)))"
  by (induction b arbitrary: r) (simp_all add: upsert_distinct)

lemma Update_distinct:
  assumes "distinct (map Name (entries (replicaOf s n)))"
  shows "distinct (map Name (entries (replicaOf (Update s n b) n)))"
  using assms by (simp add: Update_def setReplica_def fold_upsert_distinct)

lemma firstPass_fold_distinct:
  assumes "distinct (map Name (entries (replicaOf (fst (snd st)) LocalNodeID)))"
  shows "distinct (map Name (entries (replicaOf (fst (snd (fold (firstPass_step sz repo) files st))) LocalNodeID)))"
  using assms
proof (induction files arbitrary: st)
  case Nil
  then show ?case by simp
next
  case (Cons f files)
  obtain b s ev where st: "st = (b, s, ev)" by (cases st)
  have "distinct (map Name (entries (replicaOf (fst (snd (firstPass_step sz repo f st))) LocalNodeID)))"
    using Cons.prems by (simp add: st firstPass_step_def Let_def Update_distinct)
  from Cons.IH [OF this] show ?case by simp
qed

lemma firstPass_distinct:
  assumes "distinct (map Name (entries (replicaOf fs LocalNodeID)))"
  shows "distinct (map Name (entries (replicaOf (fst (firstPass sz repo files (fs, ev))) LocalNodeID)))"
proof -
  obtain b s ev' where r: "fold (firstPass_step sz repo) files ([], fs, ev) = (b, s, ev')"
    by (cases "fold (firstPass_step sz repo) files ([], fs, ev)")
  from firstPass_fold_distinct [of "([], fs, ev)" sz repo files] assms r
  have "distinct (map Name (entries (replicaOf s LocalNodeID)))" by simp
  then show ?thesis
    by (simp add: firstPass_def r Update_distinct)
qed

lemma firstPass_fold_events:
  "fst (fold (firstPass_step sz repo) files (b, s, ev)) = fst (fold (firstPass_step sz repo) files (b, s, ev')) \<and>
   fst (snd (fold (firstPass_step sz repo) files (b, s, ev))) =
     fst (snd (fold (firstPass_step sz repo) files (b, s, ev')))"
proof (induction files arbitrary: b s ev ev')
  case Nil
  show ?case by simp
next
  case (Cons f files)
  show ?case
  proof (cases "length b = batchSize")
    case True
    then show ?thesis
      using Cons.IH [of "[f]" "Update s LocalNodeID b"]
      by (simp add: firstPass_step_def Let_def)
  next
    case False
    then show ?thesis
      using Cons.IH [of "b @ [f]" s]
      by (simp add: firstPass_step_def Let_def)
  qed
qed

lemma firstPass_events:
  "fst (firstPass sz repo files (fs, ev)) = fst (firstPass sz repo files (fs, ev'))"
proof -
  from firstPass_fold_events [of sz repo files "[]" fs ev ev'] show ?thesis
    by (simp add: firstPass_def case_prod_beta)
qed

text \<open>
  C4. When ScanRepoSub runs to its end (the subpath is accepted, the repository has an
  index set, the walker delivers its files), its second pass runs over the local replica
  as the first pass left it, with the ignore patterns it has just loaded and published
  for the repository and the repository's directory, and the index set it leaves in the
  model is such that: every entry of that replica (names unique) whose name has the
  scanned subpath as prefix, that is neither Deleted nor Invalid, whose name the
  patterns do not match, and whose stat on disk fails with NotExist, stands under its
  name with the Deleted flag added to its flags, its modification time unchanged, and
  the version that Tick returns for its previous version (at the clock as the pass has
  advanced it when it reaches the entry).
\<close>

theorem C4_ScanRepoSub_marks_deleted:
  assumes "prefix repo (cleanedPath env)"
    and "repoFiles (model w) repo = Some fs"
    and "walked env = Some files"
    and "distinct (map Name (entries (replicaOf fs LocalNodeID)))"
    and "f \<in> set (entries (replicaOf (fst (firstPass sz repo files (fs, ev))) LocalNodeID))"
    and "prefix sub (Name f)"
    and "\<not> IsDeleted (Flags f)" and "\<not> IsInvalid (Flags f)"
    and "\<not> loadedIgnores env (Name f)"
    and "statNotExist env (pathJoin (repoDirectory (model w) repo) (Name f))"
  shows "\<exists>w' fs2.
     ScanRepoSub sz env repo sub w = (None, w') \<and>
     repoIgnores (model w') repo = Some (loadedIgnores env) \<and>
     repoFiles (model w') repo = Some fs2 \<and>
     Name (Get fs2 LocalNodeID (Name f)) = Name f \<and>
     Flags (Get fs2 LocalNodeID (Name f)) = Flags f OR FlagDeleted \<and>
     Modified (Get fs2 LocalNodeID (Name f)) = Modified f \<and>
     Version (Get fs2 LocalNodeID (Name f)) =
       Tick (clockAt sub (repoDirectory (model w) repo) (loadedIgnores env) (statNotExist env)
               (lamport w) (haveList (fst (firstPass sz repo files (fs, ev))) LocalNodeID) f)
            (Version f)"
proof -
  obtain t1 t2 t3 t4 where t: "scanTimes env = (t1, t2, t3, t4)"
    by (cases "scanTimes env") auto
  define m1 where "m1 = (model w)\<lparr>repoIgnores := (repoIgnores (model w))(repo \<mapsto> loadedIgnores env)\<rparr>"
  define w2 where "w2 = setState t1 t2 repo RepoScanning (w\<lparr>model := m1\<rparr>)"
  define fs1 where "fs1 = fst (firstPass sz repo files (fs, events w2))"
  define ev1 where "ev1 = snd (firstPass sz repo files (fs, events w2))"
  define p where "p = secondPass sz repo sub (repoDirectory (model w) repo) (loadedIgnores env)
                        (statNotExist env) (fs1, lamport w2, ev1)"
  define w3 where "w3 = w2\<lparr>model := (model w2)\<lparr>repoFiles := (repoFiles (model w2))(repo \<mapsto> fst p)\<rparr>,
                           lamport := fst (snd p), events := snd (snd p)\<rparr>"
  have run: "ScanRepoSub sz env repo sub w = (None, setState t3 t4 repo RepoIdle w3)"
    unfolding ScanRepoSub_def Let_def
    by (simp add: assms(1,2,3) t case_prod_beta w3_def p_def fs1_def ev1_def w2_def m1_def)
  have l2: "lamport w2 = lamport w"
    by (simp add: w2_def setState_def Let_def logEvent_def)
  have ig2: "repoIgnores (model w2) repo = Some (loadedIgnores env)"
    by (simp add: w2_def m1_def setState_def Let_def logEvent_def)
  have fin_files: "repoFiles (model (setState t3 t4 repo RepoIdle w3)) repo = Some (fst p)"
    by (simp add: setState_def Let_def logEvent_def w3_def)
  have fin_ig: "repoIgnores (model (setState t3 t4 repo RepoIdle w3)) repo = Some (loadedIgnores env)"
    using ig2 by (simp add: setState_def Let_def logEvent_def w3_def)
  have e: "fs1 = fst (firstPass sz repo files (fs, ev))"
    unfolding fs1_def by (rule firstPass_events)
  have d1: "distinct (map Name (entries (replicaOf fs1 LocalNodeID)))"
    unfolding e using assms(4) by (rule firstPass_distinct)
  have mem: "f \<in> set (entries (replicaOf fs1 LocalNodeID))"
    unfolding e by (rule assms(5))
  from secondPass_marks_deleted [where fs = fs1 and f = f and sub = sub
      and ignores = "loadedIgnores env" and notExist = "statNotExist env"
      and dir = "repoDirectory (model w) repo" and sz = sz and repo = repo
      and clock = "lamport w2" and ev = ev1,
      OF d1 mem assms(6) assms(7) assms(8) assms(9) assms(10)]
  have g: "Name (Get (fst p) LocalNodeID (Name f)) = Name f \<and>
     Flags (Get (fst p) LocalNodeID (Name f)) = Flags f OR FlagDeleted \<and>
     Modified (Get (fst p) LocalNodeID (Name f)) = Modified f \<and>
     Version (Get (fst p) LocalNodeID (Name f)) =
       Tick (clockAt sub (repoDirectory (model w) repo) (loadedIgnores env) (statNotExist env)
               (lamport w) (haveList fs1 LocalNodeID) f)
            (Version f)"
    unfolding p_def l2 .
  show ?thesis
    using run fin_ig fin_files g unfolding e by blast
qed

theorem C4_ScanRepoSub_marks_deleted_witness:
  "prefix ''photos'' (cleanedPath rescanEnv) \<and>
   walked rescanEnv = Some [] \<and>
   statNotExist rescanEnv (pathJoin (repoDirectory (model scannedWorld) ''photos'') ''a.jpg'') \<and>
   fst (ScanRepoSub blocksSize rescanEnv ''photos'' [] scannedWorld) = None \<and>
   Flags (Get (the (repoFiles (model (snd (ScanRepoSub blocksSize rescanEnv ''photos'' [] scannedWorld)))
                      ''photos''))
            LocalNodeID ''a.jpg'') = FlagDeleted \<and>
   Version (Get (the (repoFiles (model (snd (ScanRepoSub blocksSize rescanEnv ''photos'' [] scannedWorld)))
                        ''photos''))
              LocalNodeID ''a.jpg'') = 2"
proof -
  let ?a = "mkFile ''a.jpg'' 0 1 [10]"
  let ?fs = "localOnly [mkFile ''b.jpg'' 0 1 [5], ?a]"
  have h1: "prefix ''photos'' (cleanedPath rescanEnv)" by (simp add: rescanEnv_def)
  have h2: "repoFiles (model scannedWorld) ''photos'' = Some ?fs"
    by (simp add: scannedWorld_def photosModel_def)
  have h3: "walked rescanEnv = Some []" by (simp add: rescanEnv_def)
  have h4: "distinct (map Name (entries (replicaOf ?fs LocalNodeID)))"
    by (simp add: localOnly_def mkFile_def)
  have fp: "fst (firstPass blocksSize ''photos'' [] (?fs, [])) = ?fs"
    by (simp add: firstPass_def)
  have h5: "?a \<in> set (entries (replicaOf (fst (firstPass blocksSize ''photos'' [] (?fs, []))) LocalNodeID))"
    unfolding fp by (simp add: localOnly_def)
  have h6: "prefix [] (Name ?a)" by simp
  have h7: "\<not> IsDeleted (Flags ?a)" "\<not> IsInvalid (Flags ?a)"
    by (simp_all add: mkFile_def IsDeleted_def IsInvalid_def)
  have h8: "\<not> loadedIgnores rescanEnv (Name ?a)" by (simp add: rescanEnv_def noPatterns_def)
  have dir: "repoDirectory (model scannedWorld) ''photos'' = ''/data/photos''"
    by (simp add: repoDirectory_def scannedWorld_def photosModel_def photosCfg_def)
  have n: "Name ?a = ''a.jpg''" "Flags ?a = 0" "Version ?a = 1"
    by (simp_all add: mkFile_def)
  have h9: "statNotExist rescanEnv (pathJoin (repoDirectory (model scannedWorld) ''photos'') (Name ?a))"
    unfolding dir n by (simp add: rescanEnv_def pathJoin_def)
  have hl: "haveList ?fs LocalNodeID = [?a, mkFile ''b.jpg'' 0 1 [5]]"
    by (simp add: haveList_def localOnly_def mkFile_def less_eq_char_def)
  have lw: "lamport scannedWorld = 1" by (simp add: scannedWorld_def)
  have c: "clockAt [] (repoDirectory (model scannedWorld) ''photos'') (loadedIgnores rescanEnv)
             (statNotExist rescanEnv) (lamport scannedWorld)
             (haveList (fst (firstPass blocksSize ''photos'' [] (?fs, []))) LocalNodeID) ?a = 1"
    unfolding fp hl lw by (simp add: clockAt_def)
  from C4_ScanRepoSub_marks_deleted [where env = rescanEnv and w = scannedWorld
      and repo = "''photos''" and fs = "?fs" and files = "[]" and f = "?a" and sub = "[]"
      and sz = blocksSize and ev = "[]",
      OF h1 h2 h3 h4 h5 h6 h7 h8 h9]
  obtain w' fs2 where
    r: "ScanRepoSub blocksSize rescanEnv ''photos'' [] scannedWorld = (None, w')"
    and f2: "repoFiles (model w') ''photos'' = Some fs2"
    and fl: "Flags (Get fs2 LocalNodeID (Name ?a)) = Flags ?a OR FlagDeleted"
    and ve: "Version (Get fs2 LocalNodeID (Name ?a)) = Tick 1 (Version ?a)"
    unfolding c by blast
  from fl ve have "Flags (Get fs2 LocalNodeID ''a.jpg'') = FlagDeleted"
    and "Version (Get fs2 LocalNodeID ''a.jpg'') = 2"
    unfolding n by (simp_all add: Tick_def)
  with h1 h3 h9 r f2 show ?thesis unfolding n by simp
qed

subsection \<open>A shared repository has an index set\<close>

text \<open>
  Index and IndexUpdate end the process when the sending node shares a repository that
  has no index set. In the states the model reaches that does not happen: AddRepo creates
  the index set together with the sharing list, and ClusterConfig extends only the
  sharing lists of repositories that have one.
\<close>

lemma AddRepo_filesInv:
  assumes "filesInv m" and "AddRepo rc m = Some m'"
  shows "filesInv m'"
  using assms by (auto simp: AddRepo_def filesInv_def split: if_splits)

lemma introduceNode_domains:
  assumes "introduceNode rid node st = Some st'" and "repoNodes (fst st) rid \<noteq> None"
  shows "repoFiles (fst st') = repoFiles (fst st) \<and>
         (\<forall>r. repoNodes (fst st') r \<noteq> None \<longrightarrow> repoNodes (fst st) r \<noteq> None)"
  using assms
  by (cases st) (auto simp: introduceNode_def Let_def split: if_splits option.splits)

lemma introduceNodes_domains:
  "introduceNodes rid nodes st = Some st' \<Longrightarrow> repoNodes (fst st) rid \<noteq> None \<Longrightarrow>
     repoFiles (fst st') = repoFiles (fst st) \<and>
     (\<forall>r. repoNodes (fst st') r \<noteq> None \<longrightarrow> repoNodes (fst st) r \<noteq> None)"
proof (induction nodes arbitrary: st)
  case Nil
  then show ?case by simp
next
  case (Cons node nodes)
  from Cons.prems(1) obtain st1 where
    s1: "introduceNode rid node st = Some st1" and s2: "introduceNodes rid nodes st1 = Some st'"
    by (auto split: option.splits)
  from introduceNode_repoNodes [OF s1 Cons.prems(2)] have k: "repoNodes (fst st1) rid \<noteq> None" .
  from introduceNode_domains [OF s1 Cons.prems(2)] Cons.IH [OF s2 k] show ?case by simp
qed

lemma introduceRepos_domains:
  "introduceRepos repos st = Some st' \<Longrightarrow>
     repoFiles (fst st') = repoFiles (fst st) \<and>
     (\<forall>r. repoNodes (fst st') r \<noteq> None \<longrightarrow> repoNodes (fst st) r \<noteq> None)"
proof (induction repos arbitrary: st)
  case Nil
  then show ?case by simp
next
  case (Cons repo repos)
  show ?case
  proof (cases "repoNodes (fst st) (prID repo) = None")
    case True
    with Cons show ?thesis by simp
  next
    case False
    with Cons.prems obtain st1 where
      s1: "introduceNodes (prID repo) (prNodes repo) st = Some st1"
      and s2: "introduceRepos repos st1 = Some st'"
      by (auto split: option.splits)
    from introduceNodes_domains [OF s1 False] Cons.IH [OF s2] show ?thesis by simp
  qed
qed

lemma ClusterConfig_filesInv:
  assumes "filesInv m" and "ClusterConfig n cm m = Some m'"
  shows "filesInv m'"
proof -
  define m1 where "m1 = m\<lparr>nodeVer := (nodeVer m)(n \<mapsto>
                  (if ClientName cm = ''syncthing'' then ClientVersion cm
                   else ClientName cm @ '' '' @ ClientVersion cm))\<rparr>"
  define m2 where "m2 = (if GetOption cm ''name'' \<noteq> [] then
                  (case GetNodeConfiguration (cfg m1) n of
                     Some node \<Rightarrow>
                       if ncName node = []
                       then m1\<lparr>cfg := Save ((cfg m1)\<lparr>cfgNodes :=
                              setNodeName n (GetOption cm ''name'') (cfgNodes (cfg m1))\<rparr>)\<rparr>
                       else m1
                   | None \<Rightarrow> m1)
                else m1)"
  have cc: "ClusterConfig n cm m =
     (case GetNodeConfiguration (cfg m2) n of
            None \<Rightarrow> None
          | Some nc \<Rightarrow>
              if ncIntroducer nc then
                (case introduceRepos (Repositories cm) (m2, False) of
                   None \<Rightarrow> None
                 | Some (m3, changed) \<Rightarrow> Some (if changed then m3\<lparr>cfg := Save (cfg m3)\<rparr> else m3))
              else Some m2)"
    unfolding ClusterConfig_def Let_def m2_def m1_def ..
  have same: "repoNodes m2 = repoNodes m" "repoFiles m2 = repoFiles m"
    by (simp_all add: m2_def m1_def split: option.split)
  from assms(2) have "m' = m2 \<or>
     (\<exists>m3 ch. introduceRepos (Repositories cm) (m2, False) = Some (m3, ch) \<and>
        (m' = m3 \<or> m' = m3\<lparr>cfg := Save (cfg m3)\<rparr>))"
    unfolding cc by (auto split: option.splits if_splits)
  then show ?thesis
  proof
    assume "m' = m2"
    with assms(1) same show ?thesis by (simp add: filesInv_def)
  next
    assume "\<exists>m3 ch. introduceRepos (Repositories cm) (m2, False) = Some (m3, ch) \<and>
        (m' = m3 \<or> m' = m3\<lparr>cfg := Save (cfg m3)\<rparr>)"
    then obtain m3 ch where a: "introduceRepos (Repositories cm) (m2, False) = Some (m3, ch)"
      and b: "m' = m3 \<or> m' = m3\<lparr>cfg := Save (cfg m3)\<rparr>" by blast
    from introduceRepos_domains [OF a] same
    have "repoFiles m3 = repoFiles m" "\<forall>r. repoNodes m3 r \<noteq> None \<longrightarrow> repoNodes m r \<noteq> None"
      by simp_all
    with b have "repoFiles m' = repoFiles m" "\<forall>r. repoNodes m' r \<noteq> None \<longrightarrow> repoNodes m r \<noteq> None"
      by auto
    with assms(1) show ?thesis by (simp add: filesInv_def)
  qed
qed

lemma closeReplace_dom:
  "closeReplace node repos rf = Some rf' \<Longrightarrow> rf r \<noteq> None \<Longrightarrow> rf' r \<noteq> None"
  by (induction repos arbitrary: rf) (auto split: option.splits if_splits)

lemma Close_files:
  assumes "Close n e w = Some w'" and "repoFiles (model w) r \<noteq> None"
  shows "repoFiles (model w') r \<noteq> None"
proof -
  from assms(1) obtain rf where
    c: "closeReplace n (reposOf (model w) n) (repoFiles (model w)) = Some rf"
    and w': "repoFiles (model w') = rf"
    by (auto simp: Close_def Let_def logEvent_def split: option.splits)
  from closeReplace_dom [OF c assms(2)] w' show ?thesis by simp
qed

lemma Index_files:
  assumes "Index n r fs w = Some w'" and "repoFiles (model w) q \<noteq> None"
  shows "repoFiles (model w') q \<noteq> None"
  using assms by (auto simp: Index_def Let_def logEvent_def split: option.splits if_splits prod.splits)

lemma IndexUpdate_files:
  assumes "IndexUpdate n r fs w = Some w'" and "repoFiles (model w) q \<noteq> None"
  shows "repoFiles (model w') q \<noteq> None"
  using assms by (auto simp: IndexUpdate_def Let_def logEvent_def split: option.splits if_splits prod.splits)

lemma setState_files: "repoFiles (model (setState now since r s w)) = repoFiles (model w)"
  by (simp add: setState_def Let_def logEvent_def)

lemma ScanRepoSub_files:
  assumes "ScanRepoSub sz env r sub w = (e, w')" and "repoFiles (model w) q \<noteq> None"
  shows "repoFiles (model w') q \<noteq> None"
  using assms
  by (auto simp: ScanRepoSub_def Let_def setState_files
      split: if_splits option.splits prod.splits)

lemma reachable_filesInv: "reachable w \<Longrightarrow> filesInv (model w)"
proof (induction rule: reachable.induct)
  case (reach_new c)
  show ?case by (simp add: filesInv_def newWorld_def NewModel_def)
next
  case (reach_AddRepo w rc m')
  then show ?case by (simp add: AddRepo_filesInv)
next
  case (reach_ClusterConfig w n cm m')
  then show ?case by (simp add: ClusterConfig_filesInv)
next
  case (reach_Close w n e w')
  show ?case
    using reach_Close.IH Close_sharing [OF reach_Close.hyps(2)] Close_files [OF reach_Close.hyps(2)]
    unfolding filesInv_def by (metis (no_types))
next
  case (reach_Index w n r fs w')
  show ?case
    using reach_Index.IH Index_sharing [OF reach_Index.hyps(2)] Index_files [OF reach_Index.hyps(2)]
    unfolding filesInv_def by (metis (no_types))
next
  case (reach_IndexUpdate w n r fs w')
  show ?case
    using reach_IndexUpdate.IH IndexUpdate_sharing [OF reach_IndexUpdate.hyps(2)]
      IndexUpdate_files [OF reach_IndexUpdate.hyps(2)]
    unfolding filesInv_def by (metis (no_types))
next
  case (reach_setState w now since r s)
  show ?case
    using reach_setState.IH setState_sharing [of now since r s w] setState_files [of now since r s w]
    unfolding filesInv_def by (metis (no_types))
next
  case (reach_ScanRepoSub w sz env r sub e w')
  show ?case
    using reach_ScanRepoSub.IH ScanRepoSub_sharing [OF reach_ScanRepoSub.hyps(2)]
      ScanRepoSub_files [OF reach_ScanRepoSub.hyps(2)]
    unfolding filesInv_def by (metis (no_types))
qed

lemma reachable_shared_has_files:
  assumes "reachable w" and "repoSharedWith (model w) repo n"
  shows "repoFiles (model w) repo \<noteq> None"
proof -
  from assms(2) have "repo \<in> set (reposOf (model w) n)"
    by (simp add: repoSharedWith_def reposOf_def list_ex_iff)
  with reachable_sharingInv [OF assms(1)] have "n \<in> set (nodesOf (model w) repo)"
    by (simp add: sharingInv_def sharingSymmetric_def)
  then have "repoNodes (model w) repo \<noteq> None"
    by (cases "repoNodes (model w) repo") (simp_all add: nodesOf_def)
  with reachable_filesInv [OF assms(1)] show ?thesis
    by (simp add: filesInv_def)
qed

end
